theory Spec2Isabelle
  imports Main "HOL-Library.Word" "HOL-Library.Multiset"
begin

unbundle bit_operations_syntax

section \<open>Values of the Go standard library used by the package\<close>

text \<open>
  The package \<^verbatim>\<open>flowspecinternal\<close> compares and validates values that hold
  \<^verbatim>\<open>netip.Prefix\<close> and \<^verbatim>\<open>net.IP\<close> values of the Go standard library. The part of
  \<^verbatim>\<open>net/netip\<close> and \<^verbatim>\<open>net\<close> that the package calls is transcribed here, field by
  field, from the library (Go 1.25, the version the README asks for).
\<close>

type_synonym byte = "8 word"

subsection \<open>\<^verbatim>\<open>netip.Addr\<close>\<close>

text \<open>
  \<^verbatim>\<open>type uint128 struct { hi uint64; lo uint64 }\<close> and
  \<^verbatim>\<open>type Addr struct { addr uint128; z unique.Handle[addrDetail] }\<close>.
  The handle \<open>z\<close> is \<open>z0\<close> for the zero \<^verbatim>\<open>Addr\<close>, \<open>z4\<close> for an IPv4 address and
  \<open>z6noz\<close> for an IPv6 address without zone. The address of a \<^verbatim>\<open>Prefix\<close> never has a
  zone (\<^verbatim>\<open>ParsePrefix\<close> rejects one, \<^verbatim>\<open>PrefixFrom\<close> strips it), and the package reads
  addresses only out of prefixes, so no other handle occurs.
\<close>

record uint128 =
  hi :: "64 word"
  lo :: "64 word"

datatype zone = z0 | z4 | z6noz

record netip_Addr =
  addr :: uint128
  z :: zone

definition BitLen :: "netip_Addr \<Rightarrow> int" where
  "BitLen a = (case z a of z0 \<Rightarrow> 0 | z4 \<Rightarrow> 32 | z6noz \<Rightarrow> 128)"

definition Is4 :: "netip_Addr \<Rightarrow> bool" where
  "Is4 a = (z a = z4)"

text \<open>
  \<^verbatim>\<open>Addr.Compare\<close>: first by bit length, then by the high and the low half of the
  128-bit value; its last step compares the zones of two IPv6 addresses, which are both
  empty here.
\<close>

definition Compare :: "netip_Addr \<Rightarrow> netip_Addr \<Rightarrow> int" where
  "Compare a1 a2 =
     (let f1 = BitLen a1; f2 = BitLen a2 in
      if f1 < f2 then - 1
      else if f1 > f2 then 1
      else
        let hi1 = hi (addr a1); hi2 = hi (addr a2) in
        if hi1 < hi2 then - 1
        else if hi1 > hi2 then 1
        else
          let lo1 = lo (addr a1); lo2 = lo (addr a2) in
          if lo1 < lo2 then - 1
          else if lo1 > lo2 then 1
          else 0)"

definition Less :: "netip_Addr \<Rightarrow> netip_Addr \<Rightarrow> bool" where
  "Less a1 a2 = (Compare a1 a2 = - 1)"

subsection \<open>\<^verbatim>\<open>netip.Prefix\<close>\<close>

text \<open>
  \<^verbatim>\<open>type Prefix struct { ip Addr; bitsPlusOne uint8 }\<close>: the bit length is stored plus
  one, and zero marks the invalid prefix, whose \<^verbatim>\<open>Bits()\<close> is \<open>-1\<close>. The library only
  builds prefixes whose bit length is at most the bit length of the address.
\<close>

record netip_Prefix =
  ip :: netip_Addr
  bitsPlusOne :: "8 word"

definition Addr :: "netip_Prefix \<Rightarrow> netip_Addr" where
  "Addr p = ip p"

definition Bits :: "netip_Prefix \<Rightarrow> int" where
  "Bits p = uint (bitsPlusOne p) - 1"

definition IsValid :: "netip_Prefix \<Rightarrow> bool" where
  "IsValid p = (bitsPlusOne p > 0)"

text \<open>
  \<^verbatim>\<open>func mask6(n int) uint128 { return uint128{^(^uint64(0) >> n), ^uint64(0) << (128 - n)} }\<close>,
  called with \<open>0 \<le> n \<le> 128\<close>; a Go shift by 64 or more gives 0, as \<open>drop_bit\<close> and
  \<open>push_bit\<close> do.
\<close>

definition mask6 :: "int \<Rightarrow> uint128" where
  "mask6 n = \<lparr>hi = NOT (drop_bit (nat n) (- 1)), lo = push_bit (nat (128 - n)) (- 1)\<rparr>"

text \<open>
  \<^verbatim>\<open>Prefix.Contains\<close>. Its first test is \<^verbatim>\<open>!p.IsValid() || ip.hasZone()\<close>, and no address
  here has a zone. For IPv4 the library computes
  \<^verbatim>\<open>uint32((ip.addr.lo^p.ip.addr.lo)>>((32-p.Bits())&63)) == 0\<close>, for IPv6
  \<^verbatim>\<open>ip.addr.xor(p.ip.addr).and(mask6(p.Bits())).isZero()\<close>.
\<close>

definition Contains :: "netip_Prefix \<Rightarrow> netip_Addr \<Rightarrow> bool" where
  "Contains p a =
     (if \<not> IsValid p then False
      else
        let f1 = BitLen (ip p); f2 = BitLen a in
        if f1 = 0 \<or> f2 = 0 \<or> f1 \<noteq> f2 then False
        else if Is4 a then
          (ucast (drop_bit (nat ((32 - Bits p) mod 64)) (lo (addr a) XOR lo (addr (ip p)))) :: 32 word) = 0
        else
          (hi (addr a) XOR hi (addr (ip p))) AND hi (mask6 (Bits p)) = 0 \<and>
          (lo (addr a) XOR lo (addr (ip p))) AND lo (mask6 (Bits p)) = 0)"

subsection \<open>\<^verbatim>\<open>net.IP\<close>\<close>

text \<open>
  \<^verbatim>\<open>type IP []byte\<close>. \<^verbatim>\<open>IP.Equal\<close> compares the bytes of two addresses of the same
  length, and takes a 4-byte IPv4 address and its 16-byte IPv4-in-IPv6 form for equal.
\<close>

type_synonym net_IP = "byte list"

definition v4InV6Prefix :: "byte list" where
  "v4InV6Prefix = [0, 0, 0, 0, 0, 0, 0, 0, 0, 0, 0xff, 0xff]"

definition Equal_IP :: "net_IP \<Rightarrow> net_IP \<Rightarrow> bool" where
  "Equal_IP x y =
     (if length x = length y then x = y
      else if length x = 4 \<and> length y = 16 then take 12 y = v4InV6Prefix \<and> x = drop 12 y
      else if length x = 16 \<and> length y = 4 then take 12 x = v4InV6Prefix \<and> drop 12 x = y
      else False)"

section \<open>types.go\<close>

text \<open>
  A Go pointer is an \<open>option\<close>: \<open>None\<close> is nil, and dereferencing nil panics. A nil
  slice is the empty list. \<^verbatim>\<open>uint32\<close> and \<^verbatim>\<open>uint8\<close> are words.
\<close>

datatype panic = NilPointerDereference

record FlowSpecRoute =
  DestPrefix :: "netip_Prefix option"
  FromEBGP :: bool
  NeighborAS :: "32 word"
  ASPath :: "32 word list"
  OriginatorID :: net_IP

record UnicastRoute =
  Prefix :: netip_Prefix
  NeighborAS :: "32 word"
  ASPath :: "32 word list"
  OriginatorID :: net_IP

text \<open>
  \<^verbatim>\<open>type UnicastRIB interface\<close>: its two methods, as functions of the prefix asked for.
  \<^verbatim>\<open>BestPath\<close> returns a pointer, \<^verbatim>\<open>MoreSpecifics\<close> a slice of pointers.
\<close>

record UnicastRIB =
  BestPath :: "netip_Prefix \<Rightarrow> UnicastRoute option"
  MoreSpecifics :: "netip_Prefix \<Rightarrow> UnicastRoute option list"

text \<open>
  \<^verbatim>\<open>type ASPathPolicy interface { Allows(asPath []uint32) bool }\<close> is an interface value in
  \<^verbatim>\<open>Config\<close>, nil when not set.
\<close>

record Config =
  AllowNoDestPrefix :: bool
  EnableEmptyOrConfed :: bool
  ASPathPolicy :: "(32 word list \<Rightarrow> bool) option"

type_synonym ComponentType = "8 word"

definition ComponentTypeDestinationPrefix :: ComponentType where
  "ComponentTypeDestinationPrefix = 1"

definition ComponentTypeSourcePrefix :: ComponentType where
  "ComponentTypeSourcePrefix = 2"

definition ComponentTypeIpProtocol :: ComponentType where
  "ComponentTypeIpProtocol = 3"

definition ComponentTypePort :: ComponentType where
  "ComponentTypePort = 4"

text \<open>
  \<^verbatim>\<open>type FSComponent struct { Type ComponentType; Prefix *netip.Prefix; Raw []byte }\<close>.
\<close>

record FSComponent =
  Type :: ComponentType
  Prefix :: "netip_Prefix option"
  Raw :: "byte list"

record FSComponentList =
  Components :: "FSComponent list"

text \<open>
  The comment of \<^verbatim>\<open>FSComponent\<close> says which field a component carries: "For type 1/2,
  Prefix is used. For all other types, Raw is used". A list is populated so when each of its
  components of type 1 or 2 has a \<^verbatim>\<open>Prefix\<close> that is not nil.
\<close>

definition payload_populated :: "FSComponentList \<Rightarrow> bool" where
  "payload_populated a =
     (\<forall>c \<in> set (Components a).
        Type c = ComponentTypeDestinationPrefix \<or> Type c = ComponentTypeSourcePrefix
        \<longrightarrow> Prefix c \<noteq> None)"

section \<open>ordering.go\<close>

text \<open>
  The result constants are \<^verbatim>\<open>int8\<close> values. The code only returns them and tests
  their sign, so they are integers here.
\<close>

definition AHasPrecedence :: int where
  "AHasPrecedence = - 1"

definition Equal :: int where
  "Equal = 0"

definition BHasPrecedence :: int where
  "BHasPrecedence = 1"

text \<open>
  \<^verbatim>\<open>CompareFlowSpecKey\<close> has sixteen \<^verbatim>\<open>return\<close> statements. The model first computes
  which of them a call leaves through, named by its line in ordering.go, and then the
  value that statement returns.
\<close>

datatype ret =
    Line24 | Line27 | Line37 | Line40
  | Line51 | Line56 | Line61 | Line64
  | Line76 | Line79 | Line90 | Line93
  | Line97 | Line100 | Line102 | Line107

fun ret_value :: "ret \<Rightarrow> int" where
  "ret_value Line24 = AHasPrecedence"
| "ret_value Line27 = BHasPrecedence"
| "ret_value Line37 = AHasPrecedence"
| "ret_value Line40 = BHasPrecedence"
| "ret_value Line51 = AHasPrecedence"
| "ret_value Line56 = BHasPrecedence"
| "ret_value Line61 = AHasPrecedence"
| "ret_value Line64 = BHasPrecedence"
| "ret_value Line76 = AHasPrecedence"
| "ret_value Line79 = BHasPrecedence"
| "ret_value Line90 = AHasPrecedence"
| "ret_value Line93 = BHasPrecedence"
| "ret_value Line97 = AHasPrecedence"
| "ret_value Line100 = BHasPrecedence"
| "ret_value Line102 = BHasPrecedence"
| "ret_value Line107 = Equal"

text \<open>
  The two loops over the bytes (lines 74 to 81 and 88 to 95) have the same body and differ
  in their bound and in the statements they return through. \<open>None\<close>: the loop ended
  without returning. Both callers pass a bound that is at most either length.
\<close>

function raw_loop :: "ret \<Rightarrow> ret \<Rightarrow> byte list \<Rightarrow> byte list \<Rightarrow> nat \<Rightarrow> nat \<Rightarrow> ret option" where
  "raw_loop ra rb araw braw n j =
     (if j < n then
        if araw ! j < braw ! j then Some ra
        else if braw ! j < araw ! j then Some rb
        else raw_loop ra rb araw braw n (Suc j)
      else None)"
  by pat_completeness auto
termination
  by (relation "measure (\<lambda>(ra, rb, araw, braw, n, j). n - j)") auto

declare raw_loop.simps [simp del]

text \<open>Lines 68 to 103: the branch of a type that carries raw bytes.\<close>

definition raw_branch :: "byte list \<Rightarrow> byte list \<Rightarrow> ret option" where
  "raw_branch araw braw =
     (let alenRaw = length araw; blenRaw = length braw in
      if alenRaw = blenRaw then raw_loop Line76 Line79 araw braw alenRaw 0
      else
        let commonLen = (if blenRaw < alenRaw then blenRaw else alenRaw) in
        case raw_loop Line90 Line93 araw braw commonLen 0 of
          Some r \<Rightarrow> Some r
        | None \<Rightarrow>
            if alenRaw > blenRaw then Some Line97
            else if blenRaw > alenRaw then Some Line100
            else Some Line102)"

text \<open>Lines 43 to 66: the branch of the two prefix types, both pointers not nil.\<close>

definition prefix_branch :: "netip_Prefix \<Rightarrow> netip_Prefix \<Rightarrow> ret option" where
  "prefix_branch aprefix bprefix =
     (let abits = Bits aprefix; bbits = Bits bprefix;
          aaddr = Addr aprefix; baddr = Addr bprefix in
      if abits > bbits \<and> Contains bprefix aaddr then Some Line51
      else if bbits > abits \<and> Contains aprefix baddr then Some Line56
      else if abits = bbits then
        if Less aaddr baddr then Some Line61
        else if Less baddr aaddr then Some Line64
        else None
      else None)"

text \<open>
  Lines 31 to 104: the body of the loop over the positions. \<open>Inr None\<close>: the position
  yields no decision and the loop goes on; \<open>Inl\<close>: \<^verbatim>\<open>aprefix.Bits()\<close> or
  \<^verbatim>\<open>bprefix.Bits()\<close> dereferences a nil pointer.
\<close>

definition loop_body :: "FSComponent \<Rightarrow> FSComponent \<Rightarrow> panic + ret option" where
  "loop_body acomp bcomp =
     (let atype = Type acomp; btype = Type bcomp in
      if atype < btype then Inr (Some Line37)
      else if btype < atype then Inr (Some Line40)
      else if atype = ComponentTypeDestinationPrefix \<or> atype = ComponentTypeSourcePrefix then
        (case Prefix acomp of
           None \<Rightarrow> Inl NilPointerDereference
         | Some aprefix \<Rightarrow>
             (case Prefix bcomp of
                None \<Rightarrow> Inl NilPointerDereference
              | Some bprefix \<Rightarrow> Inr (prefix_branch aprefix bprefix)))
      else Inr (raw_branch (Raw acomp) (Raw bcomp)))"

text \<open>
  Lines 30 to 107: the loop from position \<open>i\<close> on. It is entered with lists of the same
  length only.
\<close>

function CompareFlowSpecKey_loop :: "FSComponent list \<Rightarrow> FSComponent list \<Rightarrow> nat \<Rightarrow> panic + ret" where
  "CompareFlowSpecKey_loop a b i =
     (if i < length a then
        case loop_body (a ! i) (b ! i) of
          Inl p \<Rightarrow> Inl p
        | Inr (Some r) \<Rightarrow> Inr r
        | Inr None \<Rightarrow> CompareFlowSpecKey_loop a b (Suc i)
      else Inr Line107)"
  by pat_completeness auto
termination
  by (relation "measure (\<lambda>(a, b, i). length a - i)") auto

declare CompareFlowSpecKey_loop.simps [simp del]

definition CompareFlowSpecKey_ret :: "FSComponentList \<Rightarrow> FSComponentList \<Rightarrow> panic + ret" where
  "CompareFlowSpecKey_ret a b =
     (let alen = length (Components a); blen = length (Components b) in
      if alen > blen then Inr Line24
      else if blen > alen then Inr Line27
      else CompareFlowSpecKey_loop (Components a) (Components b) 0)"

definition CompareFlowSpecKey :: "FSComponentList \<Rightarrow> FSComponentList \<Rightarrow> panic + int" where
  "CompareFlowSpecKey a b = map_sum id ret_value (CompareFlowSpecKey_ret a b)"

text \<open>
  The return statements come in pairs that the exchange of the two arguments exchanges.
\<close>

fun flip :: "ret \<Rightarrow> ret" where
  "flip Line24 = Line27"
| "flip Line27 = Line24"
| "flip Line37 = Line40"
| "flip Line40 = Line37"
| "flip Line51 = Line56"
| "flip Line56 = Line51"
| "flip Line61 = Line64"
| "flip Line64 = Line61"
| "flip Line76 = Line79"
| "flip Line79 = Line76"
| "flip Line90 = Line93"
| "flip Line93 = Line90"
| "flip Line97 = Line100"
| "flip Line100 = Line97"
| "flip Line102 = Line97"
| "flip Line107 = Line107"

subsection \<open>\<^verbatim>\<open>SortFlowSpecs\<close>\<close>

text \<open>
  \<^verbatim>\<open>SortFlowSpecs\<close> calls \<^verbatim>\<open>sort.Slice\<close> of the standard library with the closure
  \<^verbatim>\<open>CompareFlowSpecKey(list[i], list[j]) < 0\<close>, which panics when the comparison does.
\<close>

definition less_FlowSpecs :: "FSComponentList \<Rightarrow> FSComponentList \<Rightarrow> panic + bool" where
  "less_FlowSpecs x y = map_sum id (\<lambda>r. r < 0) (CompareFlowSpecKey x y)"

text \<open>
  \<^verbatim>\<open>sort.Slice\<close> runs \<^verbatim>\<open>pdqsort_func(data, 0, length, limit)\<close>, which starts with
  \<^verbatim>\<open>if length <= maxInsertion { insertionSort_func(data, a, b); return }\<close>,
  \<^verbatim>\<open>maxInsertion\<close> being 12:
  \<^verbatim>\<open>
  func insertionSort_func(data lessSwap, a, b int) {
      for i := a + 1; i < b; i++ {
          for j := i; j > a && data.Less(j, j-1); j-- {
              data.Swap(j, j-1)
          }
      }
  }\<close>
  \<^verbatim>\<open>data.Less(j, j-1)\<close> reads the elements that are at \<open>j\<close> and \<open>j-1\<close> at that moment.
\<close>

function insertionSort_inner ::
  "('a \<Rightarrow> 'a \<Rightarrow> panic + bool) \<Rightarrow> 'a list \<Rightarrow> nat \<Rightarrow> nat \<Rightarrow> panic + 'a list" where
  "insertionSort_inner lessf xs a j =
     (if j > a then
        case lessf (xs ! j) (xs ! (j - 1)) of
          Inl p \<Rightarrow> Inl p
        | Inr True \<Rightarrow> insertionSort_inner lessf (xs[j := xs ! (j - 1), j - 1 := xs ! j]) a (j - 1)
        | Inr False \<Rightarrow> Inr xs
      else Inr xs)"
  by pat_completeness auto
termination
  by (relation "measure (\<lambda>(lessf, xs, a, j). j)") auto

declare insertionSort_inner.simps [simp del]

function insertionSort_outer ::
  "('a \<Rightarrow> 'a \<Rightarrow> panic + bool) \<Rightarrow> 'a list \<Rightarrow> nat \<Rightarrow> nat \<Rightarrow> nat \<Rightarrow> panic + 'a list" where
  "insertionSort_outer lessf xs a b i =
     (if i < b then
        case insertionSort_inner lessf xs a i of
          Inl p \<Rightarrow> Inl p
        | Inr xs' \<Rightarrow> insertionSort_outer lessf xs' a b (Suc i)
      else Inr xs)"
  by pat_completeness auto
termination
  by (relation "measure (\<lambda>(lessf, xs, a, b, i). b - i)") auto

declare insertionSort_outer.simps [simp del]

definition insertionSort_func ::
  "('a \<Rightarrow> 'a \<Rightarrow> panic + bool) \<Rightarrow> 'a list \<Rightarrow> nat \<Rightarrow> nat \<Rightarrow> panic + 'a list" where
  "insertionSort_func lessf xs a b = insertionSort_outer lessf xs a b (a + 1)"

text \<open>
  The slice after \<^verbatim>\<open>SortFlowSpecs\<close> returns. A slice of more than 12 elements takes the
  quicksort path of \<^verbatim>\<open>pdqsort_func\<close>, which is not transcribed: the result is \<open>None\<close>
  there.
\<close>

definition SortFlowSpecs :: "FSComponentList list \<Rightarrow> (panic + FSComponentList list) option" where
  "SortFlowSpecs list =
     (if length list \<le> 12 then Some (insertionSort_func less_FlowSpecs list 0 (length list))
      else None)"

text \<open>
  What the insertion sort establishes between neighbours: \<open>x\<close> may stand before \<open>y\<close>
  when the closure said that \<open>x\<close> is less than \<open>y\<close>, or said that \<open>y\<close> is not less than
  \<open>x\<close>.
\<close>

definition le_by :: "('a \<Rightarrow> 'a \<Rightarrow> panic + bool) \<Rightarrow> 'a \<Rightarrow> 'a \<Rightarrow> bool" where
  "le_by lessf x y = (lessf x y = Inr True \<or> lessf y x = Inr False)"

section \<open>validator.go\<close>

datatype error =
    ErrNoDestinationPrefix
  | ErrNoBestUnicast
  | ErrOriginatorValidationFailed
  | ErrMoreSpecificFromOtherNeighbor
  | ErrLeftMostASMismatch

text \<open>
  Lines 61 to 65, the loop over the more specific routes. \<open>Inr None\<close>: the loop ended
  without returning; \<open>Inl\<close>: a nil element, whose \<^verbatim>\<open>r.NeighborAS\<close> panics.
\<close>

fun RuleC_loop :: "UnicastRoute option list \<Rightarrow> UnicastRoute \<Rightarrow> panic + error option" where
  "RuleC_loop [] best = Inr None"
| "RuleC_loop (None # rs) best = Inl NilPointerDereference"
| "RuleC_loop (Some r # rs) best =
     (if UnicastRoute.NeighborAS r \<noteq> UnicastRoute.NeighborAS best
      then Inr (Some ErrMoreSpecificFromOtherNeighbor)
      else RuleC_loop rs best)"

text \<open>Lines 67 to 81. The result \<open>None\<close> is the nil error.\<close>

definition LeftMostAS :: "FlowSpecRoute \<Rightarrow> UnicastRoute \<Rightarrow> error option" where
  "LeftMostAS fs best =
     (if FromEBGP fs = True then
        if length (UnicastRoute.ASPath best) = 0 then Some ErrLeftMostASMismatch
        else if length (FlowSpecRoute.ASPath fs) = 0 then Some ErrLeftMostASMismatch
        else if FlowSpecRoute.ASPath fs ! 0 \<noteq> UnicastRoute.ASPath best ! 0
        then Some ErrLeftMostASMismatch
        else None
      else None)"

text \<open>The code from the label \<^verbatim>\<open>RuleCCheck\<close> to the end of the function (lines 58 to 81).\<close>

definition RuleCCheck ::
  "FlowSpecRoute \<Rightarrow> UnicastRIB \<Rightarrow> netip_Prefix \<Rightarrow> UnicastRoute \<Rightarrow> panic + error option" where
  "RuleCCheck fs rib dst best =
     (let moreSpecifics = MoreSpecifics rib dst in
      case RuleC_loop moreSpecifics best of
        Inl p \<Rightarrow> Inl p
      | Inr (Some e) \<Rightarrow> Inr (Some e)
      | Inr None \<Rightarrow> Inr (LeftMostAS fs best))"

text \<open>Lines 27 to 32: a nil \<open>cfg\<close> stands for the default configuration.\<close>

definition cfg_or_default :: "Config option \<Rightarrow> Config" where
  "cfg_or_default cfg0 =
     (case cfg0 of
        None \<Rightarrow> \<lparr>AllowNoDestPrefix = False, EnableEmptyOrConfed = True, ASPathPolicy = None\<rparr>
      | Some c \<Rightarrow> c)"

text \<open>
  \<^verbatim>\<open>ValidateFeasibility(fs *FlowSpecRoute, rib UnicastRIB, cfg *Config) error\<close>. The rule
  \<open>fs\<close> and the RIB are there (the code uses both without a test); \<open>cfg\<close> may be nil.
  The result \<open>Inr None\<close> is the nil error.
\<close>

definition ValidateFeasibility ::
  "FlowSpecRoute \<Rightarrow> UnicastRIB \<Rightarrow> Config option \<Rightarrow> panic + error option" where
  "ValidateFeasibility fs rib cfg0 =
     (let cfg = cfg_or_default cfg0 in
      case DestPrefix fs of
        None \<Rightarrow>
          if \<not> AllowNoDestPrefix cfg then Inr (Some ErrNoDestinationPrefix)
          else Inr None
      | Some dst \<Rightarrow>
          (case BestPath rib dst of
             None \<Rightarrow> Inr (Some ErrNoBestUnicast)
           | Some best \<Rightarrow>
               if EnableEmptyOrConfed cfg \<and> \<not> FromEBGP fs \<and> length (FlowSpecRoute.ASPath fs) = 0
               then RuleCCheck fs rib dst best
               else if \<not> Equal_IP (UnicastRoute.OriginatorID best) (FlowSpecRoute.OriginatorID fs)
               then Inr (Some ErrOriginatorValidationFailed)
               else RuleCCheck fs rib dst best))"

section \<open>Values used in the tests and in the examples\<close>

text \<open>
  \<^verbatim>\<open>netip.ParsePrefix("a.b.c.d/n")\<close>, as \<^verbatim>\<open>mustPrefix\<close> and \<^verbatim>\<open>mustPrefixPtr\<close> of the
  tests call it, with \<open>v\<close> the 32-bit value of \<open>a.b.c.d\<close>: the library stores an IPv4
  address in the low 32 bits under the 16 bits \<open>0xffff\<close>, and does not clear the bits
  beyond the prefix length.
\<close>

definition ParsePrefix4 :: "64 word \<Rightarrow> nat \<Rightarrow> netip_Prefix" where
  "ParsePrefix4 v n =
     \<lparr>ip = \<lparr>addr = \<lparr>hi = 0, lo = 0xffff00000000 OR v\<rparr>, z = z4\<rparr>, bitsPlusOne = of_nat n + 1\<rparr>"

text \<open>\<^verbatim>\<open>net.IPv4(a, b, c, d)\<close>: the 16-byte form of the address.\<close>

definition IPv4 :: "byte \<Rightarrow> byte \<Rightarrow> byte \<Rightarrow> byte \<Rightarrow> net_IP" where
  "IPv4 a b c d = v4InV6Prefix @ [a, b, c, d]"

text \<open>\<^verbatim>\<open>mockRIB\<close> of validator\_test.go answers every query with the same two values.\<close>

definition mockRIB :: "UnicastRoute option \<Rightarrow> UnicastRoute option list \<Rightarrow> UnicastRIB" where
  "mockRIB best moreSpecific = \<lparr>BestPath = (\<lambda>p. best), MoreSpecifics = (\<lambda>p. moreSpecific)\<rparr>"

definition allowAllPolicy :: "32 word list \<Rightarrow> bool" where
  "allowAllPolicy asPath = True"

text \<open>
  The values that the cases of \<^verbatim>\<open>TestValidateFeasibility\<close> build: a configuration
  with the policy that allows everything, a rule (its \<^verbatim>\<open>NeighborAS\<close> is left at zero
  there) and a unicast route.
\<close>

definition test_cfg :: "bool \<Rightarrow> bool \<Rightarrow> Config" where
  "test_cfg allow relax =
     \<lparr>AllowNoDestPrefix = allow, EnableEmptyOrConfed = relax, ASPathPolicy = Some allowAllPolicy\<rparr>"

definition test_fs :: "netip_Prefix option \<Rightarrow> bool \<Rightarrow> 32 word list \<Rightarrow> net_IP \<Rightarrow> FlowSpecRoute" where
  "test_fs d e p oid =
     \<lparr>DestPrefix = d, FromEBGP = e, FlowSpecRoute.NeighborAS = 0, FlowSpecRoute.ASPath = p,
      FlowSpecRoute.OriginatorID = oid\<rparr>"

definition test_route :: "netip_Prefix \<Rightarrow> 32 word \<Rightarrow> 32 word list \<Rightarrow> net_IP \<Rightarrow> UnicastRoute" where
  "test_route pfx nas p oid =
     \<lparr>UnicastRoute.Prefix = pfx, UnicastRoute.NeighborAS = nas, UnicastRoute.ASPath = p,
      UnicastRoute.OriginatorID = oid\<rparr>"

text \<open>A component list of one destination prefix and one ip-protocol value.\<close>

definition key2 :: "netip_Prefix \<Rightarrow> byte list \<Rightarrow> FSComponentList" where
  "key2 p r =
     \<lparr>Components =
        [\<lparr>Type = ComponentTypeDestinationPrefix, Prefix = Some p, Raw = []\<rparr>,
         \<lparr>Type = ComponentTypeIpProtocol, Prefix = None, Raw = r\<rparr>]\<rparr>"

text \<open>A component list of one destination prefix.\<close>

definition key1 :: "netip_Prefix \<Rightarrow> FSComponentList" where
  "key1 p = \<lparr>Components = [\<lparr>Type = ComponentTypeDestinationPrefix, Prefix = Some p, Raw = []\<rparr>]\<rparr>"

text \<open>A component list of one raw value of type \<open>t\<close>.\<close>

definition raw1 :: "ComponentType \<Rightarrow> byte list \<Rightarrow> FSComponentList" where
  "raw1 t r = \<lparr>Components = [\<lparr>Type = t, Prefix = None, Raw = r\<rparr>]\<rparr>"

text \<open>
  The invariant of a component list: the types of its entries ascend strictly, so that
  no type occurs twice.
\<close>

definition ascending_types :: "FSComponentList \<Rightarrow> bool" where
  "ascending_types a = sorted_wrt (<) (map Type (Components a))"

text \<open>The 128-bit number that the two halves of an address make.\<close>

definition addr_value :: "netip_Addr \<Rightarrow> nat" where
  "addr_value a = unat (hi (addr a)) * 2 ^ 64 + unat (lo (addr a))"

section \<open>The comparison and the exchange of its arguments\<close>

lemma ret_value_flip: "ret_value (flip r) = - ret_value r"
  by (cases r) (simp_all add: AHasPrecedence_def BHasPrecedence_def Equal_def)

lemma Compare_swap: "Compare a2 a1 = - Compare a1 a2"
  by (auto simp: Compare_def Let_def)

lemma Less_asym: "Less a1 a2 \<Longrightarrow> \<not> Less a2 a1"
  using Compare_swap [of a2 a1] by (simp add: Less_def)

lemma Less_irrefl: "\<not> Less a1 a1"
  using Less_asym by blast

lemma raw_loop_swap: "raw_loop rb ra braw araw n j = raw_loop ra rb araw braw n j"
proof (induction ra rb araw braw n j rule: raw_loop.induct)
  case (1 ra rb araw braw n j)
  show ?case
  proof (cases "j < n")
    case True
    with 1 show ?thesis
      by (subst raw_loop.simps, subst (2) raw_loop.simps) auto
  next
    case False
    then show ?thesis
      by (subst raw_loop.simps, subst (2) raw_loop.simps) simp
  qed
qed

lemma raw_loop_cases: "raw_loop ra rb araw braw n j = None \<or> raw_loop ra rb araw braw n j = Some ra \<or> raw_loop ra rb araw braw n j = Some rb"
proof (induction ra rb araw braw n j rule: raw_loop.induct)
  case (1 ra rb araw braw n j)
  then show ?case
    by (subst (1 2 3) raw_loop.simps) auto
qed

lemma raw_branch_not_fallback: "raw_branch araw braw \<noteq> Some Line102"
  using raw_loop_cases [of Line76 Line79 araw braw "length araw" 0]
    raw_loop_cases [of Line90 Line93 araw braw "length araw" 0]
    raw_loop_cases [of Line90 Line93 araw braw "length braw" 0]
  by (auto simp: raw_branch_def Let_def split: option.splits)

lemma raw_loop_map: "raw_loop (f ra) (f rb) araw braw n j = map_option f (raw_loop ra rb araw braw n j)"
proof (induction ra rb araw braw n j rule: raw_loop.induct)
  case (1 ra rb araw braw n j)
  then show ?case
    by (subst raw_loop.simps, subst (2) raw_loop.simps) auto
qed

lemma raw_loop_flip:
  "raw_loop (flip ra) (flip rb) braw araw n j = map_option flip (raw_loop rb ra araw braw n j)"
  by (simp only: raw_loop_map raw_loop_swap [of ra rb braw araw])

lemma raw_branch_swap: "raw_branch braw araw = map_option flip (raw_branch araw braw)"
proof (cases "length araw = length braw")
  case True
  then show ?thesis
    using raw_loop_flip [of Line79 Line76 braw araw "length braw" 0]
    by (simp add: raw_branch_def Let_def)
next
  case False
  have *: "raw_loop Line90 Line93 braw araw n 0 = map_option flip (raw_loop Line90 Line93 araw braw n 0)" for n
    using raw_loop_flip [of Line93 Line90 braw araw n 0] by simp
  have m: "(if length araw < length braw then length araw else length braw) =
           (if length braw < length araw then length braw else length araw)"
    by simp
  from False show ?thesis
    unfolding raw_branch_def Let_def * m
    by (cases "raw_loop Line90 Line93 araw braw (if length braw < length araw then length braw else length araw) 0")
       auto
qed

lemma prefix_branch_swap: "prefix_branch bprefix aprefix = map_option flip (prefix_branch aprefix bprefix)"
proof -
  consider (gt) "Bits aprefix > Bits bprefix" | (lt) "Bits bprefix > Bits aprefix"
    | (eq) "Bits aprefix = Bits bprefix" by linarith
  then show ?thesis
  proof cases
    case gt
    then show ?thesis by (simp add: prefix_branch_def Let_def)
  next
    case lt
    then show ?thesis by (simp add: prefix_branch_def Let_def)
  next
    case eq
    then show ?thesis
      using Less_asym [of "Addr aprefix" "Addr bprefix"]
      by (cases "Less (Addr aprefix) (Addr bprefix)"; cases "Less (Addr bprefix) (Addr aprefix)")
         (simp_all add: prefix_branch_def Let_def)
  qed
qed

lemma loop_body_swap: "loop_body bcomp acomp = map_sum id (map_option flip) (loop_body acomp bcomp)"
proof -
  consider (lt) "Type acomp < Type bcomp" | (gt) "Type bcomp < Type acomp"
    | (eq) "Type acomp = Type bcomp" by (meson not_less_iff_gr_or_eq)
  then show ?thesis
  proof cases
    case lt
    then show ?thesis by (simp add: loop_body_def Let_def)
  next
    case gt
    then show ?thesis by (simp add: loop_body_def Let_def)
  next
    case eq
    then show ?thesis
      using raw_branch_swap [of "Raw bcomp" "Raw acomp"]
        prefix_branch_swap [of "the (Prefix bcomp)" "the (Prefix acomp)"]
      by (cases "Prefix acomp"; cases "Prefix bcomp") (simp_all add: loop_body_def Let_def)
  qed
qed

lemma loop_swap:
  "length a = length b \<Longrightarrow> CompareFlowSpecKey_loop b a i = map_sum id flip (CompareFlowSpecKey_loop a b i)"
proof (induction a b i rule: CompareFlowSpecKey_loop.induct)
  case (1 a b i)
  show ?case
  proof (cases "i < length a")
    case True
    note lt = this
    show ?thesis
    proof (cases "loop_body (a ! i) (b ! i)")
      case (Inl p)
      with lt 1(2) show ?thesis
        using loop_body_swap [of "b ! i" "a ! i"]
        by (subst CompareFlowSpecKey_loop.simps, subst (2) CompareFlowSpecKey_loop.simps) (simp add: id_def)
    next
      case (Inr r)
      show ?thesis
      proof (cases r)
        case None
        with Inr lt 1(2) 1(1) [OF lt Inr] show ?thesis
          using loop_body_swap [of "b ! i" "a ! i"]
          by (subst CompareFlowSpecKey_loop.simps, subst (2) CompareFlowSpecKey_loop.simps) (simp add: id_def)
      next
        case (Some x)
        with Inr lt 1(2) show ?thesis
          using loop_body_swap [of "b ! i" "a ! i"]
          by (subst CompareFlowSpecKey_loop.simps, subst (2) CompareFlowSpecKey_loop.simps) (simp add: id_def)
      qed
    qed
  next
    case False
    with 1(2) show ?thesis
      by (subst CompareFlowSpecKey_loop.simps, subst (2) CompareFlowSpecKey_loop.simps) (simp add: id_def)
  qed
qed

lemma ret_swap: "CompareFlowSpecKey_ret b a = map_sum id flip (CompareFlowSpecKey_ret a b)"
proof -
  consider (gt) "length (Components a) > length (Components b)"
    | (lt) "length (Components b) > length (Components a)"
    | (eq) "length (Components a) = length (Components b)" by linarith
  then show ?thesis
  proof cases
    case gt
    then show ?thesis by (simp add: CompareFlowSpecKey_ret_def Let_def)
  next
    case lt
    then show ?thesis by (simp add: CompareFlowSpecKey_ret_def Let_def)
  next
    case eq
    then show ?thesis
      using loop_swap [OF eq, of 0] by (simp add: CompareFlowSpecKey_ret_def Let_def)
  qed
qed

lemma CompareFlowSpecKey_swap: "CompareFlowSpecKey b a = map_sum id uminus (CompareFlowSpecKey a b)"
  using ret_swap [of b a]
  by (cases "CompareFlowSpecKey_ret a b") (simp_all add: CompareFlowSpecKey_def ret_value_flip)

section \<open>The loop over the positions\<close>

lemma raw_loop_refl: "raw_loop ra rb araw araw n j = None"
proof (induction "n - j" arbitrary: j)
  case 0
  then show ?case by (subst raw_loop.simps) simp
next
  case (Suc d)
  from Suc(2) have "d = n - Suc j" by simp
  from Suc(1) [OF this] Suc(2) show ?case by (subst raw_loop.simps) simp
qed

lemma raw_branch_refl: "raw_branch araw araw = None"
  by (simp add: raw_branch_def raw_loop_refl)

lemma prefix_branch_refl: "prefix_branch p p = None"
  by (simp add: prefix_branch_def Let_def Less_irrefl)

lemma loop_body_refl:
  "loop_body c c =
     (if (Type c = ComponentTypeDestinationPrefix \<or> Type c = ComponentTypeSourcePrefix) \<and> Prefix c = None
      then Inl NilPointerDereference else Inr None)"
  by (cases "Prefix c") (simp_all add: loop_body_def Let_def raw_branch_refl prefix_branch_refl)

lemma loop_step:
  "i < length a \<Longrightarrow>
   CompareFlowSpecKey_loop a b i =
     (case loop_body (a ! i) (b ! i) of
        Inl p \<Rightarrow> Inl p
      | Inr (Some r) \<Rightarrow> Inr r
      | Inr None \<Rightarrow> CompareFlowSpecKey_loop a b (Suc i))"
  by (subst CompareFlowSpecKey_loop.simps) simp

lemma loop_end: "\<not> i < length a \<Longrightarrow> CompareFlowSpecKey_loop a b i = Inr Line107"
  by (subst CompareFlowSpecKey_loop.simps) simp

lemma loop_refl:
  assumes "\<forall>c \<in> set a. Type c = ComponentTypeDestinationPrefix \<or> Type c = ComponentTypeSourcePrefix
             \<longrightarrow> Prefix c \<noteq> None"
  shows "CompareFlowSpecKey_loop a a i = Inr Line107"
proof (induction "length a - i" arbitrary: i)
  case 0
  then show ?case by (simp add: loop_end)
next
  case (Suc d)
  then have lt: "i < length a" and d: "d = length a - Suc i" by simp_all
  from lt have "a ! i \<in> set a" by simp
  with assms have "loop_body (a ! i) (a ! i) = Inr None"
    by (auto simp: loop_body_refl)
  with Suc(1) [OF d] lt show ?case by (simp add: loop_step)
qed

lemma loop_reach:
  "i \<le> length a \<Longrightarrow> \<forall>k<i. loop_body (a ! k) (b ! k) = Inr None \<Longrightarrow>
   CompareFlowSpecKey_loop a b 0 = CompareFlowSpecKey_loop a b i"
proof (induction i)
  case 0
  show ?case by simp
next
  case (Suc i)
  then have "CompareFlowSpecKey_loop a b 0 = CompareFlowSpecKey_loop a b i" by simp
  moreover from Suc(2,3) have "CompareFlowSpecKey_loop a b i = CompareFlowSpecKey_loop a b (Suc i)"
    by (simp add: loop_step)
  ultimately show ?case by simp
qed

lemma ret_same_length:
  "length (Components a) = length (Components b) \<Longrightarrow>
   CompareFlowSpecKey_ret a b = CompareFlowSpecKey_loop (Components a) (Components b) 0"
  by (simp add: CompareFlowSpecKey_ret_def)

lemma position:
  assumes "length (Components a) = length (Components b)" and "i < length (Components a)"
    and "\<forall>k<i. loop_body (Components a ! k) (Components b ! k) = Inr None"
  shows "CompareFlowSpecKey a b =
     (case loop_body (Components a ! i) (Components b ! i) of
        Inl p \<Rightarrow> Inl p
      | Inr (Some r) \<Rightarrow> Inr (ret_value r)
      | Inr None \<Rightarrow> map_sum id ret_value (CompareFlowSpecKey_loop (Components a) (Components b) (Suc i)))"
proof -
  have "CompareFlowSpecKey_ret a b = CompareFlowSpecKey_loop (Components a) (Components b) i"
    using assms loop_reach [of i "Components a" "Components b"] by (simp add: ret_same_length)
  then show ?thesis
    using assms(2) by (simp add: CompareFlowSpecKey_def loop_step split: sum.splits option.splits)
qed

lemma raw_loop_None:
  "raw_loop ra rb araw braw n j = None \<longleftrightarrow> (\<forall>k. j \<le> k \<and> k < n \<longrightarrow> araw ! k = braw ! k)"
proof (induction ra rb araw braw n j rule: raw_loop.induct)
  case (1 ra rb araw braw n j)
  show ?case
  proof (cases "j < n")
    case False
    then have "raw_loop ra rb araw braw n j = None" by (subst raw_loop.simps) simp
    with False show ?thesis by auto
  next
    case True
    show ?thesis
    proof (cases "araw ! j = braw ! j")
      case True
      with \<open>j < n\<close> 1 have "raw_loop ra rb araw braw n j = None \<longleftrightarrow>
          (\<forall>k. Suc j \<le> k \<and> k < n \<longrightarrow> araw ! k = braw ! k)"
        by (subst raw_loop.simps) simp
      also have "\<dots> \<longleftrightarrow> (\<forall>k. j \<le> k \<and> k < n \<longrightarrow> araw ! k = braw ! k)"
        using True by (metis Suc_leI le_neq_implies_less Suc_leD)
      finally show ?thesis .
    next
      case False
      then have "araw ! j < braw ! j \<or> braw ! j < araw ! j" by auto
      with \<open>j < n\<close> have "raw_loop ra rb araw braw n j \<noteq> None"
        by (subst raw_loop.simps) auto
      with False \<open>j < n\<close> show ?thesis by auto
    qed
  qed
qed

lemma raw_loop_first_diff:
  "j \<le> k \<Longrightarrow> k < n \<Longrightarrow> \<forall>m. j \<le> m \<and> m < k \<longrightarrow> araw ! m = braw ! m \<Longrightarrow> araw ! k \<noteq> braw ! k \<Longrightarrow>
   raw_loop ra rb araw braw n j = Some (if araw ! k < braw ! k then ra else rb)"
proof (induction ra rb araw braw n j rule: raw_loop.induct)
  case (1 ra rb araw braw n j)
  show ?case
  proof (cases "j = k")
    case True
    with 1(3,5) show ?thesis by (subst raw_loop.simps) auto
  next
    case False
    with 1(2) have jk: "j < k" by simp
    with 1(4) have eq: "araw ! j = braw ! j" by simp
    have "raw_loop ra rb araw braw n (Suc j) = Some (if araw ! k < braw ! k then ra else rb)"
      using 1(1) [of ] jk 1(3,4,5) eq by simp
    with jk 1(3) eq show ?thesis by (subst raw_loop.simps) simp
  qed
qed

section \<open>The statement of line 102\<close>

lemma loop_body_not_fallback: "loop_body acomp bcomp \<noteq> Inr (Some Line102)"
  using raw_branch_not_fallback [of "Raw acomp" "Raw bcomp"]
  by (auto simp: loop_body_def Let_def prefix_branch_def split: option.splits if_splits)

lemma loop_not_fallback: "CompareFlowSpecKey_loop a b i \<noteq> Inr Line102"
proof (induction a b i rule: CompareFlowSpecKey_loop.induct)
  case (1 a b i)
  show ?case
  proof (cases "i < length a")
    case True
    with 1 loop_body_not_fallback [of "a ! i" "b ! i"] show ?thesis
      by (auto simp: loop_step split: sum.splits option.splits)
  next
    case False
    then show ?thesis by (simp add: loop_end)
  qed
qed

lemma raw_branch_unequal:
  assumes "length araw \<noteq> length braw"
  shows "raw_branch araw braw \<in> {Some Line90, Some Line93, Some Line97, Some Line100}"
  using assms raw_loop_cases [of Line90 Line93 araw braw "length araw" 0]
    raw_loop_cases [of Line90 Line93 araw braw "length braw" 0]
  by (auto simp: raw_branch_def Let_def split: option.splits)

section \<open>A list against itself\<close>

lemma CompareFlowSpecKey_refl:
  assumes "\<forall>c \<in> set (Components a).
             Type c = ComponentTypeDestinationPrefix \<or> Type c = ComponentTypeSourcePrefix
             \<longrightarrow> Prefix c \<noteq> None"
  shows "CompareFlowSpecKey a a = Inr Equal"
  using loop_refl [OF assms, of 0]
  by (simp add: CompareFlowSpecKey_def CompareFlowSpecKey_ret_def)

section \<open>The order of the addresses and the two branches\<close>

lemma Less_total: "\<not> Less a1 a2 \<Longrightarrow> \<not> Less a2 a1 \<Longrightarrow> a1 = (a2 :: netip_Addr)"
proof -
  assume l: "\<not> Less a1 a2" "\<not> Less a2 a1"
  then have b: "BitLen a1 = BitLen a2" and h: "hi (addr a1) = hi (addr a2)"
    and lo: "lo (addr a1) = lo (addr a2)"
    by (auto simp: Less_def Compare_def Let_def split: if_splits)
  from b have "z a1 = z a2"
    by (cases "z a1"; cases "z a2") (simp_all add: BitLen_def)
  with h lo show ?thesis by simp
qed

lemma Less_value: "z a1 = z a2 \<Longrightarrow> Less a1 a2 \<longleftrightarrow> addr_value a1 < addr_value a2"
proof -
  assume "z a1 = z a2"
  then have b: "BitLen a1 = BitLen a2" by (simp add: BitLen_def)
  have l1: "unat (lo (addr a1)) < 2 ^ 64" and l2: "unat (lo (addr a2)) < 2 ^ 64"
    using unsigned_less [of "lo (addr a1)", where ?'a = nat] unsigned_less [of "lo (addr a2)", where ?'a = nat] by simp_all
  have "Less a1 a2 \<longleftrightarrow> hi (addr a1) < hi (addr a2) \<or>
          (hi (addr a1) = hi (addr a2) \<and> lo (addr a1) < lo (addr a2))"
    using b by (auto simp: Less_def Compare_def Let_def)
  also have "\<dots> \<longleftrightarrow> unat (hi (addr a1)) < unat (hi (addr a2)) \<or>
          (unat (hi (addr a1)) = unat (hi (addr a2)) \<and> unat (lo (addr a1)) < unat (lo (addr a2)))"
    by (simp add: word_less_nat_alt word_unat_eq_iff)
  also have "\<dots> \<longleftrightarrow> addr_value a1 < addr_value a2"
    unfolding addr_value_def using l1 l2 by (auto simp: not_less)
  finally show ?thesis .
qed

lemma loop_body_prefix:
  "Type acomp = Type bcomp \<Longrightarrow>
   Type acomp = ComponentTypeDestinationPrefix \<or> Type acomp = ComponentTypeSourcePrefix \<Longrightarrow>
   Prefix acomp = Some p \<Longrightarrow> Prefix bcomp = Some q \<Longrightarrow>
   loop_body acomp bcomp = Inr (prefix_branch p q)"
  by (simp add: loop_body_def Let_def)

lemma loop_body_raw:
  "Type acomp = Type bcomp \<Longrightarrow> Type acomp \<noteq> ComponentTypeDestinationPrefix \<Longrightarrow>
   Type acomp \<noteq> ComponentTypeSourcePrefix \<Longrightarrow>
   loop_body acomp bcomp = Inr (raw_branch (Raw acomp) (Raw bcomp))"
  by (simp add: loop_body_def Let_def)

lemma commonLen_min:
  "(if length braw < length araw then length braw else length araw) = min (length araw) (length braw)"
  by simp

lemma raw_branch_first_diff:
  assumes "k < min (length araw) (length braw)" and "\<forall>m<k. araw ! m = braw ! m"
    and "araw ! k \<noteq> braw ! k"
  shows "map_option ret_value (raw_branch araw braw) =
         Some (if araw ! k < braw ! k then AHasPrecedence else BHasPrecedence)"
proof (cases "length araw = length braw")
  case True
  with assms raw_loop_first_diff [of 0 k "length araw" araw braw Line76 Line79]
  show ?thesis by (simp add: raw_branch_def)
next
  case False
  have "raw_loop Line90 Line93 araw braw (min (length araw) (length braw)) 0 =
        Some (if araw ! k < braw ! k then Line90 else Line93)"
    using assms by (intro raw_loop_first_diff) simp_all
  with False show ?thesis
    unfolding raw_branch_def Let_def commonLen_min by simp
qed

lemma raw_branch_common:
  assumes "\<forall>m<min (length araw) (length braw). araw ! m = braw ! m"
  shows "length araw > length braw \<Longrightarrow> raw_branch araw braw = Some Line97"
    and "length braw > length araw \<Longrightarrow> raw_branch araw braw = Some Line100"
proof -
  have n: "raw_loop Line90 Line93 araw braw (min (length araw) (length braw)) 0 = None"
    using assms by (simp add: raw_loop_None)
  show "length araw > length braw \<Longrightarrow> raw_branch araw braw = Some Line97"
    using n unfolding raw_branch_def Let_def commonLen_min by simp
  show "length braw > length araw \<Longrightarrow> raw_branch araw braw = Some Line100"
    using n unfolding raw_branch_def Let_def commonLen_min by simp
qed

section \<open>The loop over the more specific routes\<close>

lemma RuleC_loop_pass:
  "RuleC_loop rs best = Inr None \<longleftrightarrow>
   (\<forall>r \<in> set rs. \<exists>u. r = Some u \<and> UnicastRoute.NeighborAS u = UnicastRoute.NeighborAS best)"
  by (induction rs best rule: RuleC_loop.induct) auto

lemma RuleC_loop_result:
  "RuleC_loop rs best = Inr (Some e) \<Longrightarrow> e = ErrMoreSpecificFromOtherNeighbor"
  by (induction rs best rule: RuleC_loop.induct) (auto split: if_splits)

section \<open>The feasibility rules\<close>

text \<open>
  Claim C6. Rule a and the first step of rule b. For every rule, RIB and configuration
  (nil or not): when the rule has no destination prefix, \<^verbatim>\<open>ValidateFeasibility\<close> returns
  nil if \<^verbatim>\<open>AllowNoDestPrefix\<close> is set and \<^verbatim>\<open>ErrNoDestinationPrefix\<close> if not, whatever
  the RIB and the other fields of the rule are; when the rule has a destination prefix for
  which \<^verbatim>\<open>BestPath\<close> returns nil, it returns \<^verbatim>\<open>ErrNoBestUnicast\<close>.
\<close>

theorem ValidateFeasibility_dest_prefix:
  "(DestPrefix fs = None \<longrightarrow>
      ValidateFeasibility fs rib cfg0 =
        (if AllowNoDestPrefix (cfg_or_default cfg0) then Inr None
         else Inr (Some ErrNoDestinationPrefix))) \<and>
   (DestPrefix fs = Some dst \<and> BestPath rib dst = None \<longrightarrow>
      ValidateFeasibility fs rib cfg0 = Inr (Some ErrNoBestUnicast))"
  by (simp add: ValidateFeasibility_def Let_def)

text \<open>
  The cases \<open>NoDestPrefix_Disallowed\<close>, \<open>NoDestPrefix_Allowed\<close> and
  \<open>NoBestUnicast\<close> of the tests, and the first of them with a nil configuration.
\<close>

theorem ValidateFeasibility_dest_prefix_witness:
  "ValidateFeasibility (test_fs None False [] (IPv4 192 0 2 1)) (mockRIB None [])
     (Some (test_cfg False True)) = Inr (Some ErrNoDestinationPrefix) \<and>
   ValidateFeasibility (test_fs None False [] (IPv4 192 0 2 1)) (mockRIB None [])
     (Some (test_cfg True True)) = Inr None \<and>
   ValidateFeasibility (test_fs None False [] (IPv4 192 0 2 1)) (mockRIB None []) None =
     Inr (Some ErrNoDestinationPrefix) \<and>
   ValidateFeasibility (test_fs (Some (ParsePrefix4 0xC0000200 24)) False [65001] (IPv4 192 0 2 1))
     (mockRIB None []) (Some (test_cfg False True)) = Inr (Some ErrNoBestUnicast)"
proof -
  have d: "DestPrefix (test_fs None False [] (IPv4 192 0 2 1)) = None"
    by (simp add: test_fs_def)
  have b: "DestPrefix (test_fs (Some (ParsePrefix4 0xC0000200 24)) False [65001] (IPv4 192 0 2 1)) =
             Some (ParsePrefix4 0xC0000200 24) \<and>
           BestPath (mockRIB None []) (ParsePrefix4 0xC0000200 24) = None"
    by (simp add: test_fs_def mockRIB_def)
  show ?thesis
    using d b
      ValidateFeasibility_dest_prefix [of "test_fs None False [] (IPv4 192 0 2 1)" "mockRIB None []"
        "Some (test_cfg False True)"]
      ValidateFeasibility_dest_prefix [of "test_fs None False [] (IPv4 192 0 2 1)" "mockRIB None []"
        "Some (test_cfg True True)"]
      ValidateFeasibility_dest_prefix [of "test_fs None False [] (IPv4 192 0 2 1)" "mockRIB None []"
        None]
      ValidateFeasibility_dest_prefix [of
        "test_fs (Some (ParsePrefix4 0xC0000200 24)) False [65001] (IPv4 192 0 2 1)"
        "mockRIB None []" "Some (test_cfg False True)" "ParsePrefix4 0xC0000200 24"]
    by (simp add: cfg_or_default_def test_cfg_def)
qed

lemma RuleCCheck_originator:
  "RuleCCheck (fs\<lparr>FlowSpecRoute.OriginatorID := x\<rparr>) rib dst (best\<lparr>UnicastRoute.OriginatorID := y\<rparr>) =
   RuleCCheck fs rib dst best"
proof -
  have "RuleC_loop rs (best\<lparr>UnicastRoute.OriginatorID := y\<rparr>) = RuleC_loop rs best" for rs
    by (induction rs best rule: RuleC_loop.induct) simp_all
  moreover have "LeftMostAS (fs\<lparr>FlowSpecRoute.OriginatorID := x\<rparr>) (best\<lparr>UnicastRoute.OriginatorID := y\<rparr>) =
      LeftMostAS fs best"
    by (simp add: LeftMostAS_def)
  ultimately show ?thesis
    by (simp add: RuleCCheck_def split: sum.splits option.splits)
qed

text \<open>
  Claim C7. The originator check of rule b. For a rule with a destination prefix and a best
  unicast path for it: when \<^verbatim>\<open>EnableEmptyOrConfed\<close> is set, the rule is not from eBGP and its
  AS\_PATH is empty, \<^verbatim>\<open>ValidateFeasibility\<close> returns what the code from the label
  \<^verbatim>\<open>RuleCCheck\<close> on returns, which does not read the two originator identifiers; in every
  other case it returns \<^verbatim>\<open>ErrOriginatorValidationFailed\<close> when \<^verbatim>\<open>IP.Equal\<close> of the two
  identifiers is false, whatever the more specific routes and the AS\_PATHs are, and what
  the code from the label on returns when it is true. For two identifiers of the same
  length \<^verbatim>\<open>IP.Equal\<close> is the equality of their bytes.
\<close>

theorem ValidateFeasibility_originator:
  assumes "DestPrefix fs = Some dst" and "BestPath rib dst = Some best"
  shows "(EnableEmptyOrConfed (cfg_or_default cfg0) \<and> \<not> FromEBGP fs \<and> FlowSpecRoute.ASPath fs = [] \<longrightarrow>
            ValidateFeasibility fs rib cfg0 = RuleCCheck fs rib dst best) \<and>
         (\<not> (EnableEmptyOrConfed (cfg_or_default cfg0) \<and> \<not> FromEBGP fs \<and> FlowSpecRoute.ASPath fs = []) \<longrightarrow>
            ValidateFeasibility fs rib cfg0 =
              (if Equal_IP (UnicastRoute.OriginatorID best) (FlowSpecRoute.OriginatorID fs)
               then RuleCCheck fs rib dst best
               else Inr (Some ErrOriginatorValidationFailed))) \<and>
         RuleCCheck (fs\<lparr>FlowSpecRoute.OriginatorID := x\<rparr>) rib dst (best\<lparr>UnicastRoute.OriginatorID := y\<rparr>) =
           RuleCCheck fs rib dst best \<and>
         (length (UnicastRoute.OriginatorID best) = length (FlowSpecRoute.OriginatorID fs) \<longrightarrow>
            Equal_IP (UnicastRoute.OriginatorID best) (FlowSpecRoute.OriginatorID fs) =
              (UnicastRoute.OriginatorID best = FlowSpecRoute.OriginatorID fs))"
  using assms by (simp add: ValidateFeasibility_def Let_def RuleCCheck_originator Equal_IP_def)

text \<open>
  The cases \<open>EmptyASPath_OK_with_iBGP_and_EnableEmptyOrConfed\<close>,
  \<open>EmptyASPath_Disallowed_when_b2_disabled\<close> and
  \<open>OriginatorMismatch_Error_no_emptyAS_shortcut\<close> of the tests; in the last the RIB is
  given a nil more specific route, which the code never reaches.
\<close>

theorem ValidateFeasibility_originator_witness:
  "ValidateFeasibility (test_fs (Some (ParsePrefix4 0xC0586300 24)) False [] (IPv4 192 0 2 2))
     (mockRIB (Some (test_route (ParsePrefix4 0xC0586300 24) 65001 [65001] (IPv4 192 0 2 1))) [])
     (Some (test_cfg False True)) = Inr None \<and>
   ValidateFeasibility (test_fs (Some (ParsePrefix4 0xC0586300 24)) False [] (IPv4 192 0 2 2))
     (mockRIB (Some (test_route (ParsePrefix4 0xC0586300 24) 65001 [65001] (IPv4 192 0 2 1))) [])
     (Some (test_cfg False False)) = Inr (Some ErrOriginatorValidationFailed) \<and>
   ValidateFeasibility (test_fs (Some (ParsePrefix4 0xC0586300 24)) False [65001] (IPv4 192 0 2 2))
     (mockRIB (Some (test_route (ParsePrefix4 0xC0586300 24) 65001 [65001] (IPv4 192 0 2 1))) [None])
     (Some (test_cfg False True)) = Inr (Some ErrOriginatorValidationFailed)"
proof -
  let ?dst = "ParsePrefix4 0xC0586300 24"
  let ?best = "test_route ?dst 65001 [65001] (IPv4 192 0 2 1)"
  let ?fs = "test_fs (Some ?dst) False [] (IPv4 192 0 2 2)"
  let ?fs' = "test_fs (Some ?dst) False [65001] (IPv4 192 0 2 2)"
  have d: "DestPrefix ?fs = Some ?dst" "DestPrefix ?fs' = Some ?dst"
    by (simp_all add: test_fs_def)
  have b: "BestPath (mockRIB (Some ?best) rs) ?dst = Some ?best" for rs
    by (simp add: mockRIB_def)
  have ne: "\<not> Equal_IP (UnicastRoute.OriginatorID ?best) (FlowSpecRoute.OriginatorID ?fs)"
    "\<not> Equal_IP (UnicastRoute.OriginatorID ?best) (FlowSpecRoute.OriginatorID ?fs')"
    by (simp_all add: Equal_IP_def test_fs_def test_route_def IPv4_def v4InV6Prefix_def)
  have r: "RuleCCheck ?fs (mockRIB (Some ?best) []) ?dst ?best = Inr None"
    by (simp add: RuleCCheck_def LeftMostAS_def mockRIB_def test_fs_def)
  have f: "\<not> FromEBGP ?fs" "FlowSpecRoute.ASPath ?fs = []" "FlowSpecRoute.ASPath ?fs' \<noteq> []"
    by (simp_all add: test_fs_def)
  show ?thesis
    using ne r f
      ValidateFeasibility_originator [OF d(1) b, of "Some (test_cfg False True)" "[]"]
      ValidateFeasibility_originator [OF d(1) b, of "Some (test_cfg False False)" "[]"]
      ValidateFeasibility_originator [OF d(2) b, of "Some (test_cfg False True)" "[None]"]
    by (simp add: cfg_or_default_def test_cfg_def)
qed

text \<open>
  Claim C8. The left-most AS check. Let a rule have a destination prefix, the RIB a best
  path for it, the originator check be skipped or passed, and every more specific route be
  there with the neighbor AS of the best path (steps a to c pass). If the rule is from
  eBGP, \<^verbatim>\<open>ValidateFeasibility\<close> returns \<^verbatim>\<open>ErrLeftMostASMismatch\<close> exactly when the
  AS\_PATH of the best path is empty, or that of the rule is empty, or their first AS
  numbers differ, and nil otherwise; if the rule is not from eBGP it returns nil.
\<close>

theorem ValidateFeasibility_left_most_AS:
  assumes "DestPrefix fs = Some dst" and "BestPath rib dst = Some best"
    and "(EnableEmptyOrConfed (cfg_or_default cfg0) \<and> \<not> FromEBGP fs \<and> FlowSpecRoute.ASPath fs = []) \<or>
         Equal_IP (UnicastRoute.OriginatorID best) (FlowSpecRoute.OriginatorID fs)"
    and "\<forall>r \<in> set (MoreSpecifics rib dst).
           \<exists>u. r = Some u \<and> UnicastRoute.NeighborAS u = UnicastRoute.NeighborAS best"
  shows "(FromEBGP fs \<longrightarrow>
            (ValidateFeasibility fs rib cfg0 = Inr (Some ErrLeftMostASMismatch) \<longleftrightarrow>
               UnicastRoute.ASPath best = [] \<or> FlowSpecRoute.ASPath fs = [] \<or>
               FlowSpecRoute.ASPath fs ! 0 \<noteq> UnicastRoute.ASPath best ! 0) \<and>
            (ValidateFeasibility fs rib cfg0 \<noteq> Inr (Some ErrLeftMostASMismatch) \<longrightarrow>
               ValidateFeasibility fs rib cfg0 = Inr None)) \<and>
         (\<not> FromEBGP fs \<longrightarrow> ValidateFeasibility fs rib cfg0 = Inr None)"
proof -
  have loop: "RuleC_loop (MoreSpecifics rib dst) best = Inr None"
    using assms(4) by (simp add: RuleC_loop_pass)
  have "ValidateFeasibility fs rib cfg0 = Inr (LeftMostAS fs best)"
    using assms(1-3) loop by (auto simp: ValidateFeasibility_def RuleCCheck_def Let_def)
  then show ?thesis
    by (auto simp: LeftMostAS_def)
qed

text \<open>
  The cases \<open>LeftMostASMismatch_for_eBGP\<close>, \<open>EBGP_OriginatorAndLeftMostMatch_OK\<close> and
  \<open>MoreSpecificsSameNeighbor_OK\<close> of the tests.
\<close>

theorem ValidateFeasibility_left_most_AS_witness:
  "ValidateFeasibility (test_fs (Some (ParsePrefix4 0xC0586300 24)) True [65002, 65001] (IPv4 192 0 2 1))
     (mockRIB (Some (test_route (ParsePrefix4 0xC0586300 24) 65001 [65001, 64512] (IPv4 192 0 2 1))) [])
     (Some (test_cfg False True)) = Inr (Some ErrLeftMostASMismatch) \<and>
   ValidateFeasibility (test_fs (Some (ParsePrefix4 0xC0586300 24)) True [65001, 64512] (IPv4 192 0 2 10))
     (mockRIB (Some (test_route (ParsePrefix4 0xC0586300 24) 65001 [65001, 64496] (IPv4 192 0 2 10))) [])
     (Some (test_cfg False True)) = Inr None \<and>
   ValidateFeasibility (test_fs (Some (ParsePrefix4 0xC0586300 24)) False [65001] (IPv4 192 0 2 1))
     (mockRIB (Some (test_route (ParsePrefix4 0xC0586300 24) 65001 [65001] (IPv4 192 0 2 1)))
        [Some (test_route (ParsePrefix4 0xC0586300 25) 65001 [65001] (IPv4 192 0 2 3)),
         Some (test_route (ParsePrefix4 0xC0586380 25) 65001 [65001] (IPv4 192 0 2 4))])
     (Some (test_cfg False True)) = Inr None"
proof -
  let ?dst = "ParsePrefix4 0xC0586300 24"
  let ?cfg = "Some (test_cfg False True)"
  let ?fs1 = "test_fs (Some ?dst) True [65002, 65001] (IPv4 192 0 2 1)"
  let ?b1 = "test_route ?dst 65001 [65001, 64512] (IPv4 192 0 2 1)"
  let ?fs2 = "test_fs (Some ?dst) True [65001, 64512] (IPv4 192 0 2 10)"
  let ?b2 = "test_route ?dst 65001 [65001, 64496] (IPv4 192 0 2 10)"
  let ?fs3 = "test_fs (Some ?dst) False [65001] (IPv4 192 0 2 1)"
  let ?b3 = "test_route ?dst 65001 [65001] (IPv4 192 0 2 1)"
  let ?ms = "[Some (test_route (ParsePrefix4 0xC0586300 25) 65001 [65001] (IPv4 192 0 2 3)),
              Some (test_route (ParsePrefix4 0xC0586380 25) 65001 [65001] (IPv4 192 0 2 4))]"
  have d: "DestPrefix ?fs1 = Some ?dst" "DestPrefix ?fs2 = Some ?dst" "DestPrefix ?fs3 = Some ?dst"
    by (simp_all add: test_fs_def)
  have b: "BestPath (mockRIB (Some bb) rs) ?dst = Some bb" for bb rs
    by (simp add: mockRIB_def)
  have o1: "(EnableEmptyOrConfed (cfg_or_default ?cfg) \<and> \<not> FromEBGP ?fs1 \<and> FlowSpecRoute.ASPath ?fs1 = []) \<or>
         Equal_IP (UnicastRoute.OriginatorID ?b1) (FlowSpecRoute.OriginatorID ?fs1)"
    by (simp add: Equal_IP_def test_fs_def test_route_def)
  have o2: "(EnableEmptyOrConfed (cfg_or_default ?cfg) \<and> \<not> FromEBGP ?fs2 \<and> FlowSpecRoute.ASPath ?fs2 = []) \<or>
         Equal_IP (UnicastRoute.OriginatorID ?b2) (FlowSpecRoute.OriginatorID ?fs2)"
    by (simp add: Equal_IP_def test_fs_def test_route_def)
  have o3: "(EnableEmptyOrConfed (cfg_or_default ?cfg) \<and> \<not> FromEBGP ?fs3 \<and> FlowSpecRoute.ASPath ?fs3 = []) \<or>
         Equal_IP (UnicastRoute.OriginatorID ?b3) (FlowSpecRoute.OriginatorID ?fs3)"
    by (simp add: Equal_IP_def test_fs_def test_route_def)
  have m0: "\<forall>r \<in> set (MoreSpecifics (mockRIB (Some bb) []) ?dst).
           \<exists>u. r = Some u \<and> UnicastRoute.NeighborAS u = UnicastRoute.NeighborAS bb" for bb
    by (simp add: mockRIB_def)
  have m3: "\<forall>r \<in> set (MoreSpecifics (mockRIB (Some ?b3) ?ms) ?dst).
           \<exists>u. r = Some u \<and> UnicastRoute.NeighborAS u = UnicastRoute.NeighborAS ?b3"
    by (simp add: mockRIB_def test_route_def)
  have f: "FromEBGP ?fs1" "FromEBGP ?fs2" "\<not> FromEBGP ?fs3"
    "FlowSpecRoute.ASPath ?fs1 ! 0 \<noteq> UnicastRoute.ASPath ?b1 ! 0"
    "UnicastRoute.ASPath ?b2 \<noteq> []" "FlowSpecRoute.ASPath ?fs2 \<noteq> []"
    "FlowSpecRoute.ASPath ?fs2 ! 0 = UnicastRoute.ASPath ?b2 ! 0"
    by (simp_all add: test_fs_def test_route_def)
  have r1: "ValidateFeasibility ?fs1 (mockRIB (Some ?b1) []) ?cfg = Inr (Some ErrLeftMostASMismatch)"
    using ValidateFeasibility_left_most_AS [OF d(1) b o1 m0] f(1,4) by blast
  have r2: "ValidateFeasibility ?fs2 (mockRIB (Some ?b2) []) ?cfg = Inr None"
    using ValidateFeasibility_left_most_AS [OF d(2) b o2 m0] f(2,5,6,7) by blast
  have r3: "ValidateFeasibility ?fs3 (mockRIB (Some ?b3) ?ms) ?cfg = Inr None"
    using ValidateFeasibility_left_most_AS [OF d(3) b o3 m3] f(3) by blast
  from r1 r2 r3 show ?thesis by (intro conjI)
qed

text \<open>
  Claim C10. For a rule that came over an eBGP session the flag \<^verbatim>\<open>EnableEmptyOrConfed\<close> has
  no effect: two configurations (nil or not) that agree on \<^verbatim>\<open>AllowNoDestPrefix\<close> give
  the same result, a panic included, for every RIB.
\<close>

theorem ValidateFeasibility_relaxation_not_for_eBGP:
  assumes "FromEBGP fs"
    and "AllowNoDestPrefix (cfg_or_default cfg1) = AllowNoDestPrefix (cfg_or_default cfg2)"
  shows "ValidateFeasibility fs rib cfg1 = ValidateFeasibility fs rib cfg2"
  using assms by (simp add: ValidateFeasibility_def Let_def split: option.splits)

text \<open>
  The eBGP rule of the case \<open>EBGP_LocalOriginBestPath_Error\<close> of the tests, whose AS\_PATH
  is made empty here, with the flag set and not set.
\<close>

theorem ValidateFeasibility_relaxation_not_for_eBGP_witness:
  "ValidateFeasibility (test_fs (Some (ParsePrefix4 0xC0586300 24)) True [] (IPv4 192 0 2 10))
     (mockRIB (Some (test_route (ParsePrefix4 0xC0586300 24) 60006 [] (IPv4 192 0 2 1))) [])
     (Some (test_cfg False True)) =
   ValidateFeasibility (test_fs (Some (ParsePrefix4 0xC0586300 24)) True [] (IPv4 192 0 2 10))
     (mockRIB (Some (test_route (ParsePrefix4 0xC0586300 24) 60006 [] (IPv4 192 0 2 1))) [])
     (Some (test_cfg False False)) \<and>
   ValidateFeasibility (test_fs (Some (ParsePrefix4 0xC0586300 24)) True [] (IPv4 192 0 2 10))
     (mockRIB (Some (test_route (ParsePrefix4 0xC0586300 24) 60006 [] (IPv4 192 0 2 1))) [])
     (Some (test_cfg False False)) = Inr (Some ErrOriginatorValidationFailed)"
proof -
  let ?fs = "test_fs (Some (ParsePrefix4 0xC0586300 24)) True [] (IPv4 192 0 2 10)"
  let ?rib = "mockRIB (Some (test_route (ParsePrefix4 0xC0586300 24) 60006 [] (IPv4 192 0 2 1))) []"
  have e: "FromEBGP ?fs" by (simp add: test_fs_def)
  have a: "AllowNoDestPrefix (cfg_or_default (Some (test_cfg False True))) =
           AllowNoDestPrefix (cfg_or_default (Some (test_cfg False False)))"
    by (simp add: cfg_or_default_def test_cfg_def)
  have v: "ValidateFeasibility ?fs ?rib (Some (test_cfg False True)) = Inr (Some ErrOriginatorValidationFailed)"
    by (simp add: ValidateFeasibility_def cfg_or_default_def test_cfg_def test_fs_def mockRIB_def
        test_route_def Equal_IP_def IPv4_def v4InV6Prefix_def)
  show ?thesis
    using v ValidateFeasibility_relaxation_not_for_eBGP [OF e a, of ?rib] by simp
qed

section \<open>The order of the component lists\<close>

text \<open>
  Claim C3. The position of a prefix type. Let the two lists have the same length, let
  every position before \<open>i\<close> yield no decision, and let both components at \<open>i\<close> have the
  same prefix type and carry the prefixes \<open>p\<close> and \<open>q\<close>. If the bit lengths differ, the
  longer prefix wins when the shorter one contains its address, and otherwise the position
  yields no decision and the loop goes on at \<open>i + 1\<close>. If the bit lengths are equal, the
  prefix whose address is less (\<^verbatim>\<open>Addr.Less\<close>: for two addresses of the same family, the
  one with the smaller number) wins, and equal addresses yield no decision.
\<close>

theorem CompareFlowSpecKey_prefix_position:
  assumes "length (Components a) = length (Components b)" and "i < length (Components a)"
    and "\<forall>k<i. loop_body (Components a ! k) (Components b ! k) = Inr None"
    and "Type (Components a ! i) = Type (Components b ! i)"
    and "Type (Components a ! i) = ComponentTypeDestinationPrefix \<or>
         Type (Components a ! i) = ComponentTypeSourcePrefix"
    and "Prefix (Components a ! i) = Some p" and "Prefix (Components b ! i) = Some q"
  shows "(Bits p > Bits q \<and> Contains q (Addr p) \<longrightarrow> CompareFlowSpecKey a b = Inr AHasPrecedence) \<and>
         (Bits q > Bits p \<and> Contains p (Addr q) \<longrightarrow> CompareFlowSpecKey a b = Inr BHasPrecedence) \<and>
         (Bits p > Bits q \<and> \<not> Contains q (Addr p) \<or> Bits q > Bits p \<and> \<not> Contains p (Addr q) \<longrightarrow>
            loop_body (Components a ! i) (Components b ! i) = Inr None \<and>
            CompareFlowSpecKey a b =
              map_sum id ret_value (CompareFlowSpecKey_loop (Components a) (Components b) (Suc i))) \<and>
         (Bits p = Bits q \<and> Less (Addr p) (Addr q) \<longrightarrow> CompareFlowSpecKey a b = Inr AHasPrecedence) \<and>
         (Bits p = Bits q \<and> Less (Addr q) (Addr p) \<longrightarrow> CompareFlowSpecKey a b = Inr BHasPrecedence) \<and>
         (Bits p = Bits q \<and> Addr p = Addr q \<longrightarrow>
            loop_body (Components a ! i) (Components b ! i) = Inr None \<and>
            CompareFlowSpecKey a b =
              map_sum id ret_value (CompareFlowSpecKey_loop (Components a) (Components b) (Suc i))) \<and>
         (z (Addr p) = z (Addr q) \<longrightarrow>
            Less (Addr p) (Addr q) = (addr_value (Addr p) < addr_value (Addr q)))"
proof -
  let ?rest = "map_sum id ret_value (CompareFlowSpecKey_loop (Components a) (Components b) (Suc i))"
  have body: "loop_body (Components a ! i) (Components b ! i) = Inr (prefix_branch p q)"
    using assms(4-7) by (rule loop_body_prefix)
  have res: "CompareFlowSpecKey a b =
      (case prefix_branch p q of Some r \<Rightarrow> Inr (ret_value r) | None \<Rightarrow> ?rest)"
    using position [OF assms(1-3)] body by (simp split: option.splits)
  have c1: "Bits p > Bits q \<and> Contains q (Addr p) \<longrightarrow> CompareFlowSpecKey a b = Inr AHasPrecedence"
    by (simp add: res prefix_branch_def Let_def)
  have c2: "Bits q > Bits p \<and> Contains p (Addr q) \<longrightarrow> CompareFlowSpecKey a b = Inr BHasPrecedence"
    by (simp add: res prefix_branch_def Let_def)
  have n3: "Bits p > Bits q \<and> \<not> Contains q (Addr p) \<or> Bits q > Bits p \<and> \<not> Contains p (Addr q) \<longrightarrow>
      prefix_branch p q = None"
    by (auto simp: prefix_branch_def Let_def)
  have c4: "Bits p = Bits q \<and> Less (Addr p) (Addr q) \<longrightarrow> CompareFlowSpecKey a b = Inr AHasPrecedence"
    by (simp add: res prefix_branch_def Let_def)
  have c5: "Bits p = Bits q \<and> Less (Addr q) (Addr p) \<longrightarrow> CompareFlowSpecKey a b = Inr BHasPrecedence"
    using Less_asym [of "Addr q" "Addr p"] by (auto simp: res prefix_branch_def Let_def)
  have n6: "Bits p = Bits q \<and> Addr p = Addr q \<longrightarrow> prefix_branch p q = None"
    by (simp add: prefix_branch_def Let_def Less_irrefl)
  have c7: "z (Addr p) = z (Addr q) \<longrightarrow>
      Less (Addr p) (Addr q) = (addr_value (Addr p) < addr_value (Addr q))"
    by (simp add: Less_value)
  from n3 have c3: "Bits p > Bits q \<and> \<not> Contains q (Addr p) \<or> Bits q > Bits p \<and> \<not> Contains p (Addr q) \<longrightarrow>
      loop_body (Components a ! i) (Components b ! i) = Inr None \<and> CompareFlowSpecKey a b = ?rest"
    by (simp add: res body)
  from n6 have c6: "Bits p = Bits q \<and> Addr p = Addr q \<longrightarrow>
      loop_body (Components a ! i) (Components b ! i) = Inr None \<and> CompareFlowSpecKey a b = ?rest"
    by (simp add: res body)
  from c1 c2 c3 c4 c5 c6 c7 show ?thesis by (intro conjI)
qed

text \<open>
  The cases \<open>DestPrefix_MoreSpecific_Wins\<close> (192.0.2.0/24 against 192.0.2.0/16) and
  \<open>DstPrefix_EqualLength_LowerIP_Wins\<close> (192.0.2.0/24 against 192.0.2.128/24) of the
  tests, and 1.0.0.0/24 against 2.0.0.0/16, where neither prefix contains the other and
  the result of the two one-component lists is \<open>Equal\<close>.
\<close>

theorem CompareFlowSpecKey_prefix_position_witness:
  "CompareFlowSpecKey (key1 (ParsePrefix4 0xC0000200 24)) (key1 (ParsePrefix4 0xC0000200 16)) =
     Inr AHasPrecedence \<and>
   CompareFlowSpecKey (key1 (ParsePrefix4 0xC0000200 24)) (key1 (ParsePrefix4 0xC0000280 24)) =
     Inr AHasPrecedence \<and>
   CompareFlowSpecKey (key1 (ParsePrefix4 0x01000000 24)) (key1 (ParsePrefix4 0x02000000 16)) =
     Inr Equal"
proof -
  have pos: "length (Components (key1 p)) = length (Components (key1 q))"
    "0 < length (Components (key1 p))"
    "\<forall>k<0. loop_body (Components (key1 p) ! k) (Components (key1 q) ! k) = Inr None"
    "Type (Components (key1 p) ! 0) = Type (Components (key1 q) ! 0)"
    "Type (Components (key1 p) ! 0) = ComponentTypeDestinationPrefix \<or>
     Type (Components (key1 p) ! 0) = ComponentTypeSourcePrefix"
    "Prefix (Components (key1 p) ! 0) = Some p" "Prefix (Components (key1 q) ! 0) = Some q" for p q
    by (simp_all add: key1_def)
  note th = CompareFlowSpecKey_prefix_position [OF pos]
  have e1: "Bits (ParsePrefix4 0xC0000200 24) > Bits (ParsePrefix4 0xC0000200 16) \<and>
      Contains (ParsePrefix4 0xC0000200 16) (Addr (ParsePrefix4 0xC0000200 24))"
    by code_simp
  have e2: "Bits (ParsePrefix4 0xC0000200 24) = Bits (ParsePrefix4 0xC0000280 24) \<and>
      Less (Addr (ParsePrefix4 0xC0000200 24)) (Addr (ParsePrefix4 0xC0000280 24))"
    by code_simp
  have e3: "Bits (ParsePrefix4 0x01000000 24) > Bits (ParsePrefix4 0x02000000 16) \<and>
      \<not> Contains (ParsePrefix4 0x02000000 16) (Addr (ParsePrefix4 0x01000000 24))"
    by code_simp
  have l3: "CompareFlowSpecKey_loop (Components (key1 p)) (Components (key1 q)) (Suc 0) = Inr Line107" for p q
    by (simp add: loop_end key1_def)
  have r1: "CompareFlowSpecKey (key1 (ParsePrefix4 0xC0000200 24)) (key1 (ParsePrefix4 0xC0000200 16)) =
     Inr AHasPrecedence"
    using th [where p = "ParsePrefix4 0xC0000200 24" and q = "ParsePrefix4 0xC0000200 16"] e1 by blast
  have r2: "CompareFlowSpecKey (key1 (ParsePrefix4 0xC0000200 24)) (key1 (ParsePrefix4 0xC0000280 24)) =
     Inr AHasPrecedence"
    using th [where p = "ParsePrefix4 0xC0000200 24" and q = "ParsePrefix4 0xC0000280 24"] e2 by blast
  have "CompareFlowSpecKey (key1 (ParsePrefix4 0x01000000 24)) (key1 (ParsePrefix4 0x02000000 16)) =
     map_sum id ret_value (CompareFlowSpecKey_loop (Components (key1 (ParsePrefix4 0x01000000 24)))
        (Components (key1 (ParsePrefix4 0x02000000 16))) (Suc 0))"
    using th [where p = "ParsePrefix4 0x01000000 24" and q = "ParsePrefix4 0x02000000 16"] e3 by blast
  then have r3: "CompareFlowSpecKey (key1 (ParsePrefix4 0x01000000 24)) (key1 (ParsePrefix4 0x02000000 16)) =
     Inr Equal"
    by (simp add: l3)
  from r1 r2 r3 show ?thesis by (intro conjI)
qed

text \<open>
  Claim C4. The position of a raw type. Let the two lists have the same length, let every
  position before \<open>i\<close> yield no decision, and let both components at \<open>i\<close> have the same
  type, which is not a prefix type, and the byte sequences \<open>x\<close> and \<open>y\<close>. At the first
  index below both lengths where the bytes differ, the sequence with the smaller byte,
  compared without sign, wins. If the bytes agree below both lengths, the longer sequence
  wins. If the sequences are the same, the position yields no decision and the loop goes on
  at \<open>i + 1\<close>. For two lists of one component of the same raw type, with the values
  0x81 0x11 and 0x01 0x06, the result is \<open>BHasPrecedence\<close>.
\<close>

theorem CompareFlowSpecKey_raw_position:
  assumes "length (Components a) = length (Components b)" and "i < length (Components a)"
    and "\<forall>k<i. loop_body (Components a ! k) (Components b ! k) = Inr None"
    and "Type (Components a ! i) = Type (Components b ! i)"
    and "Type (Components a ! i) \<noteq> ComponentTypeDestinationPrefix"
    and "Type (Components a ! i) \<noteq> ComponentTypeSourcePrefix"
    and "x = Raw (Components a ! i)" and "y = Raw (Components b ! i)"
  shows "(\<forall>k. k < min (length x) (length y) \<and> (\<forall>m<k. x ! m = y ! m) \<and> x ! k \<noteq> y ! k \<longrightarrow>
            CompareFlowSpecKey a b = Inr (if x ! k < y ! k then AHasPrecedence else BHasPrecedence)) \<and>
         ((\<forall>m<min (length x) (length y). x ! m = y ! m) \<and> length x > length y \<longrightarrow>
            CompareFlowSpecKey a b = Inr AHasPrecedence) \<and>
         ((\<forall>m<min (length x) (length y). x ! m = y ! m) \<and> length y > length x \<longrightarrow>
            CompareFlowSpecKey a b = Inr BHasPrecedence) \<and>
         (x = y \<longrightarrow>
            loop_body (Components a ! i) (Components b ! i) = Inr None \<and>
            CompareFlowSpecKey a b =
              map_sum id ret_value (CompareFlowSpecKey_loop (Components a) (Components b) (Suc i))) \<and>
         (t \<noteq> ComponentTypeDestinationPrefix \<and> t \<noteq> ComponentTypeSourcePrefix \<longrightarrow>
            CompareFlowSpecKey (raw1 t [0x81, 0x11]) (raw1 t [0x01, 0x06]) = Inr BHasPrecedence)"
proof -
  let ?rest = "map_sum id ret_value (CompareFlowSpecKey_loop (Components a) (Components b) (Suc i))"
  have body: "loop_body (Components a ! i) (Components b ! i) = Inr (raw_branch x y)"
    using assms(4-8) by (simp add: loop_body_raw)
  have res: "CompareFlowSpecKey a b =
      (case raw_branch x y of Some r \<Rightarrow> Inr (ret_value r) | None \<Rightarrow> ?rest)"
    using position [OF assms(1-3)] body by (simp split: option.splits)
  have c1: "\<forall>k. k < min (length x) (length y) \<and> (\<forall>m<k. x ! m = y ! m) \<and> x ! k \<noteq> y ! k \<longrightarrow>
      CompareFlowSpecKey a b = Inr (if x ! k < y ! k then AHasPrecedence else BHasPrecedence)"
  proof (intro allI impI)
    fix k
    assume k: "k < min (length x) (length y) \<and> (\<forall>m<k. x ! m = y ! m) \<and> x ! k \<noteq> y ! k"
    then have "map_option ret_value (raw_branch x y) =
        Some (if x ! k < y ! k then AHasPrecedence else BHasPrecedence)"
      by (intro raw_branch_first_diff) simp_all
    then show "CompareFlowSpecKey a b = Inr (if x ! k < y ! k then AHasPrecedence else BHasPrecedence)"
      by (cases "raw_branch x y") (simp_all add: res)
  qed
  have c2: "(\<forall>m<min (length x) (length y). x ! m = y ! m) \<and> length x > length y \<longrightarrow>
      CompareFlowSpecKey a b = Inr AHasPrecedence"
    using raw_branch_common(1) [of x y] by (auto simp: res)
  have c3: "(\<forall>m<min (length x) (length y). x ! m = y ! m) \<and> length y > length x \<longrightarrow>
      CompareFlowSpecKey a b = Inr BHasPrecedence"
    using raw_branch_common(2) [of x y] by (auto simp: res)
  have c4: "x = y \<longrightarrow> loop_body (Components a ! i) (Components b ! i) = Inr None \<and>
      CompareFlowSpecKey a b = ?rest"
    by (simp add: res body raw_branch_refl)
  have c5: "t \<noteq> ComponentTypeDestinationPrefix \<and> t \<noteq> ComponentTypeSourcePrefix \<longrightarrow>
      CompareFlowSpecKey (raw1 t [0x81, 0x11]) (raw1 t [0x01, 0x06]) = Inr BHasPrecedence"
    by (simp add: CompareFlowSpecKey_def CompareFlowSpecKey_ret_def raw1_def loop_step loop_body_def
        raw_branch_def raw_loop.simps)
  from c1 c2 c3 c4 c5 show ?thesis by (intro conjI)
qed

text \<open>
  The case \<open>NonPrefix_EqualLength_Memcmp\<close> of the tests (0x81 0x11 against 0x01 0x06,
  decided at index 0, where 0x01 is the smaller byte without sign), the case
  \<open>NonPrefix_DifferentPrefix_LowestPrefixWins\<close> (0x01 0x73 0x81 0x04 against 0x81 0x04), and
  0x81 0x04 0x01 against 0x81 0x04, where the longer sequence wins.
\<close>

theorem CompareFlowSpecKey_raw_position_witness:
  "CompareFlowSpecKey (raw1 ComponentTypeIpProtocol [0x81, 0x11])
     (raw1 ComponentTypeIpProtocol [0x01, 0x06]) = Inr BHasPrecedence \<and>
   CompareFlowSpecKey (raw1 ComponentTypeIpProtocol [0x01, 0x73, 0x81, 0x04])
     (raw1 ComponentTypeIpProtocol [0x81, 0x04]) = Inr AHasPrecedence \<and>
   CompareFlowSpecKey (raw1 ComponentTypeIpProtocol [0x81, 0x04, 0x01])
     (raw1 ComponentTypeIpProtocol [0x81, 0x04]) = Inr AHasPrecedence"
proof -
  have pos: "length (Components (raw1 ComponentTypeIpProtocol x)) =
      length (Components (raw1 ComponentTypeIpProtocol y))"
    "0 < length (Components (raw1 ComponentTypeIpProtocol x))"
    "\<forall>k<0. loop_body (Components (raw1 ComponentTypeIpProtocol x) ! k)
        (Components (raw1 ComponentTypeIpProtocol y) ! k) = Inr None"
    "Type (Components (raw1 ComponentTypeIpProtocol x) ! 0) =
      Type (Components (raw1 ComponentTypeIpProtocol y) ! 0)"
    "Type (Components (raw1 ComponentTypeIpProtocol x) ! 0) \<noteq> ComponentTypeDestinationPrefix"
    "Type (Components (raw1 ComponentTypeIpProtocol x) ! 0) \<noteq> ComponentTypeSourcePrefix"
    "x = Raw (Components (raw1 ComponentTypeIpProtocol x) ! 0)"
    "y = Raw (Components (raw1 ComponentTypeIpProtocol y) ! 0)" for x y
    by (simp_all add: raw1_def ComponentTypeIpProtocol_def ComponentTypeDestinationPrefix_def
        ComponentTypeSourcePrefix_def)
  note th = CompareFlowSpecKey_raw_position [OF pos]
  have "(0::nat) < min (length [0x81, 0x11 :: byte]) (length [0x01, 0x06 :: byte]) \<and>
      (\<forall>m<0. [0x81, 0x11 :: byte] ! m = [0x01, 0x06] ! m) \<and>
      [0x81, 0x11 :: byte] ! 0 \<noteq> [0x01, 0x06] ! 0"
    by simp
  with th [where x = "[0x81, 0x11]" and y = "[0x01, 0x06]"]
  have "CompareFlowSpecKey (raw1 ComponentTypeIpProtocol [0x81, 0x11])
      (raw1 ComponentTypeIpProtocol [0x01, 0x06]) =
      Inr (if [0x81, 0x11 :: byte] ! 0 < [0x01, 0x06] ! 0 then AHasPrecedence else BHasPrecedence)"
    by blast
  then have r1: "CompareFlowSpecKey (raw1 ComponentTypeIpProtocol [0x81, 0x11])
      (raw1 ComponentTypeIpProtocol [0x01, 0x06]) = Inr BHasPrecedence"
    by simp
  have "(0::nat) < min (length [0x01, 0x73, 0x81, 0x04 :: byte]) (length [0x81, 0x04 :: byte]) \<and>
      (\<forall>m<0. [0x01, 0x73, 0x81, 0x04 :: byte] ! m = [0x81, 0x04] ! m) \<and>
      [0x01, 0x73, 0x81, 0x04 :: byte] ! 0 \<noteq> [0x81, 0x04] ! 0"
    by simp
  with th [where x = "[0x01, 0x73, 0x81, 0x04]" and y = "[0x81, 0x04]"]
  have "CompareFlowSpecKey (raw1 ComponentTypeIpProtocol [0x01, 0x73, 0x81, 0x04])
      (raw1 ComponentTypeIpProtocol [0x81, 0x04]) =
      Inr (if [0x01, 0x73, 0x81, 0x04 :: byte] ! 0 < [0x81, 0x04] ! 0 then AHasPrecedence else BHasPrecedence)"
    by blast
  then have r2: "CompareFlowSpecKey (raw1 ComponentTypeIpProtocol [0x01, 0x73, 0x81, 0x04])
      (raw1 ComponentTypeIpProtocol [0x81, 0x04]) = Inr AHasPrecedence"
    by simp
  have "(\<forall>m<min (length [0x81, 0x04, 0x01 :: byte]) (length [0x81, 0x04 :: byte]).
        [0x81, 0x04, 0x01 :: byte] ! m = [0x81, 0x04] ! m) \<and>
      length [0x81, 0x04, 0x01 :: byte] > length [0x81, 0x04 :: byte]"
    by (simp add: less_Suc_eq)
  with th [where x = "[0x81, 0x04, 0x01]" and y = "[0x81, 0x04]"]
  have r3: "CompareFlowSpecKey (raw1 ComponentTypeIpProtocol [0x81, 0x04, 0x01])
      (raw1 ComponentTypeIpProtocol [0x81, 0x04]) = Inr AHasPrecedence"
    by blast
  from r1 r2 r3 show ?thesis by (intro conjI)
qed

text \<open>
  Claim C9. No call of \<^verbatim>\<open>CompareFlowSpecKey\<close> returns through the statement of line 102,
  the last \<^verbatim>\<open>return BHasPrecedence\<close> of the branch for byte sequences of different
  lengths: that branch returns through line 90 or 93 (a byte that differs) or through line
  97 or 100 (the longer sequence).
\<close>

theorem CompareFlowSpecKey_line102_unreachable:
  "CompareFlowSpecKey_ret a b \<noteq> Inr Line102 \<and>
   (length araw \<noteq> length braw \<longrightarrow>
      raw_branch araw braw \<in> {Some Line90, Some Line93, Some Line97, Some Line100})"
  using loop_not_fallback [of "Components a" "Components b" 0] raw_branch_unequal [of araw braw]
  by (simp add: CompareFlowSpecKey_ret_def Let_def)

text \<open>
  The byte sequences 0x81 0x04 0x01 and 0x81 0x04, of different lengths: the call returns
  through line 97.
\<close>

theorem CompareFlowSpecKey_line102_unreachable_witness:
  "CompareFlowSpecKey_ret (raw1 ComponentTypeIpProtocol [0x81, 0x04, 0x01])
     (raw1 ComponentTypeIpProtocol [0x81, 0x04]) = Inr Line97 \<and>
   raw_branch [0x81, 0x04, 0x01] [0x81, 0x04] = Some Line97"
proof -
  have n: "length [0x81, 0x04, 0x01 :: byte] \<noteq> length [0x81, 0x04 :: byte]" by simp
  have "raw_branch [0x81, 0x04, 0x01] [0x81, 0x04] \<noteq> Some Line90 \<and>
        raw_branch [0x81, 0x04, 0x01] [0x81, 0x04] \<noteq> Some Line93 \<and>
        raw_branch [0x81, 0x04, 0x01] [0x81, 0x04] \<noteq> Some Line100"
    by code_simp
  with n CompareFlowSpecKey_line102_unreachable
    [of "raw1 ComponentTypeIpProtocol [0x81, 0x04, 0x01]" "raw1 ComponentTypeIpProtocol [0x81, 0x04]"
      "[0x81, 0x04, 0x01]" "[0x81, 0x04]"]
  have r: "raw_branch [0x81, 0x04, 0x01] [0x81, 0x04] = Some Line97" by auto
  then have "CompareFlowSpecKey_ret (raw1 ComponentTypeIpProtocol [0x81, 0x04, 0x01])
     (raw1 ComponentTypeIpProtocol [0x81, 0x04]) = Inr Line97"
    by (simp add: CompareFlowSpecKey_ret_def raw1_def loop_step loop_body_def
        ComponentTypeIpProtocol_def ComponentTypeDestinationPrefix_def ComponentTypeSourcePrefix_def)
  with r show ?thesis by simp
qed

lemma loop_body_returns:
  assumes "Type acomp = ComponentTypeDestinationPrefix \<or> Type acomp = ComponentTypeSourcePrefix
             \<longrightarrow> Prefix acomp \<noteq> None"
    and "Type bcomp = ComponentTypeDestinationPrefix \<or> Type bcomp = ComponentTypeSourcePrefix
             \<longrightarrow> Prefix bcomp \<noteq> None"
  shows "\<exists>r. loop_body acomp bcomp = Inr r"
proof -
  consider (lt) "Type acomp < Type bcomp" | (gt) "Type bcomp < Type acomp"
    | (eq) "Type acomp = Type bcomp" by (meson not_less_iff_gr_or_eq)
  then show ?thesis
  proof cases
    case lt
    then show ?thesis by (simp add: loop_body_def Let_def)
  next
    case gt
    then show ?thesis by (simp add: loop_body_def Let_def)
  next
    case eq
    show ?thesis
    proof (cases "Type acomp = ComponentTypeDestinationPrefix \<or> Type acomp = ComponentTypeSourcePrefix")
      case True
      with assms eq obtain p q where "Prefix acomp = Some p" "Prefix bcomp = Some q" by auto
      with eq True show ?thesis by (simp add: loop_body_prefix)
    next
      case False
      with eq show ?thesis by (simp add: loop_body_raw)
    qed
  qed
qed

lemma loop_returns:
  assumes "payload_populated \<lparr>Components = a\<rparr>" and "payload_populated \<lparr>Components = b\<rparr>"
    and "length a = length b"
  shows "\<exists>r. CompareFlowSpecKey_loop a b i = Inr r"
proof (induction "length a - i" arbitrary: i)
  case 0
  then show ?case by (simp add: loop_end)
next
  case (Suc d)
  then have lt: "i < length a" and d: "d = length a - Suc i" by simp_all
  from lt assms(3) have "a ! i \<in> set a" "b ! i \<in> set b" by simp_all
  with assms(1,2) obtain r where r: "loop_body (a ! i) (b ! i) = Inr r"
    using loop_body_returns [of "a ! i" "b ! i"] by (auto simp: payload_populated_def)
  show ?case
  proof (cases r)
    case None
    with r lt Suc(1) [OF d] show ?thesis by (simp add: loop_step)
  next
    case (Some x)
    with r lt show ?thesis by (simp add: loop_step)
  qed
qed

lemma CompareFlowSpecKey_returns:
  assumes "payload_populated a" and "payload_populated b"
  shows "\<exists>r. CompareFlowSpecKey a b = Inr r \<and>
              (r = AHasPrecedence \<or> r = Equal \<or> r = BHasPrecedence)"
proof -
  have v: "ret_value x = AHasPrecedence \<or> ret_value x = Equal \<or> ret_value x = BHasPrecedence" for x
    by (cases x) simp_all
  have pa: "payload_populated \<lparr>Components = Components a\<rparr>"
    and pb: "payload_populated \<lparr>Components = Components b\<rparr>"
    using assms by (simp_all add: payload_populated_def)
  have "\<exists>x. CompareFlowSpecKey_ret a b = Inr x"
  proof (cases "length (Components a) = length (Components b)")
    case True
    with loop_returns [OF pa pb True, of 0] show ?thesis by (simp add: CompareFlowSpecKey_ret_def)
  next
    case False
    then show ?thesis by (auto simp: CompareFlowSpecKey_ret_def Let_def)
  qed
  then obtain x where "CompareFlowSpecKey_ret a b = Inr x" ..
  with v [of x] show ?thesis by (simp add: CompareFlowSpecKey_def)
qed

text \<open>
  Claim C2. \<^verbatim>\<open>CompareFlowSpecKey\<close> is antisymmetric and reflexive for \<open>Equal\<close>. For every
  pair of component lists \<open>a\<close>, \<open>b\<close> whose components of a prefix type carry their prefix,
  the call on \<open>a\<close>, \<open>b\<close> returns one of the three results, the call on \<open>b\<close>, \<open>a\<close>
  returns its negation, so that \<open>AHasPrecedence\<close> and \<open>BHasPrecedence\<close> change places and
  \<open>Equal\<close> stays, and the call on \<open>a\<close>, \<open>a\<close> returns \<open>Equal\<close>.
\<close>

theorem CompareFlowSpecKey_antisymmetric:
  assumes "payload_populated a" and "payload_populated b"
  shows "(\<exists>r. CompareFlowSpecKey a b = Inr r \<and> CompareFlowSpecKey b a = Inr (- r) \<and>
              (r = AHasPrecedence \<or> r = Equal \<or> r = BHasPrecedence)) \<and>
         (CompareFlowSpecKey a b = Inr AHasPrecedence \<longleftrightarrow> CompareFlowSpecKey b a = Inr BHasPrecedence) \<and>
         (CompareFlowSpecKey a b = Inr Equal \<longleftrightarrow> CompareFlowSpecKey b a = Inr Equal) \<and>
         CompareFlowSpecKey a a = Inr Equal"
proof -
  from CompareFlowSpecKey_returns [OF assms] obtain r where
    r: "CompareFlowSpecKey a b = Inr r" and
    v: "r = AHasPrecedence \<or> r = Equal \<or> r = BHasPrecedence" by blast
  from r CompareFlowSpecKey_swap [of b a] have s: "CompareFlowSpecKey b a = Inr (- r)" by simp
  have c1: "\<exists>r. CompareFlowSpecKey a b = Inr r \<and> CompareFlowSpecKey b a = Inr (- r) \<and>
              (r = AHasPrecedence \<or> r = Equal \<or> r = BHasPrecedence)"
    using r s v by blast
  have c2: "CompareFlowSpecKey a b = Inr AHasPrecedence \<longleftrightarrow> CompareFlowSpecKey b a = Inr BHasPrecedence"
    using r s by (auto simp: AHasPrecedence_def BHasPrecedence_def)
  have c3: "CompareFlowSpecKey a b = Inr Equal \<longleftrightarrow> CompareFlowSpecKey b a = Inr Equal"
    using r s by (auto simp: Equal_def)
  have c4: "CompareFlowSpecKey a a = Inr Equal"
    using assms(1) by (intro CompareFlowSpecKey_refl) (simp add: payload_populated_def)
  from c1 c2 c3 c4 show ?thesis by (intro conjI)
qed

text \<open>
  192.0.2.0/24 against 192.0.2.0/16: the first has precedence, so with the arguments
  exchanged the second argument has, and 192.0.2.0/24 against itself is \<open>Equal\<close>.
\<close>

theorem CompareFlowSpecKey_antisymmetric_witness:
  "CompareFlowSpecKey (key1 (ParsePrefix4 0xC0000200 16)) (key1 (ParsePrefix4 0xC0000200 24)) =
     Inr BHasPrecedence \<and>
   CompareFlowSpecKey (key1 (ParsePrefix4 0xC0000200 24)) (key1 (ParsePrefix4 0xC0000200 24)) =
     Inr Equal"
proof -
  have e: "CompareFlowSpecKey (key1 (ParsePrefix4 0xC0000200 24)) (key1 (ParsePrefix4 0xC0000200 16)) =
      Inr AHasPrecedence"
    by code_simp
  have p: "payload_populated (key1 q)" for q
    by (simp add: payload_populated_def key1_def)
  note th = CompareFlowSpecKey_antisymmetric [OF p p]
  have r1: "CompareFlowSpecKey (key1 (ParsePrefix4 0xC0000200 16)) (key1 (ParsePrefix4 0xC0000200 24)) =
     Inr BHasPrecedence"
    using th [of "ParsePrefix4 0xC0000200 24" "ParsePrefix4 0xC0000200 16"] e by blast
  have r2: "CompareFlowSpecKey (key1 (ParsePrefix4 0xC0000200 24)) (key1 (ParsePrefix4 0xC0000200 24)) =
     Inr Equal"
    using th [of "ParsePrefix4 0xC0000200 24" "ParsePrefix4 0xC0000200 24"] by blast
  from r1 r2 show ?thesis by (intro conjI)
qed

text \<open>
  Claim C1. \<^verbatim>\<open>CompareFlowSpecKey\<close> is not transitive on lists that satisfy the invariant.
  Of the three lists (1.0.0.0/24, ip-protocol 0x11), (2.0.0.0/24, ip-protocol 0x06) and
  (2.0.0.0/16, ip-protocol 0x06) the first has precedence over the second (equal bit
  lengths, lower address) and the second over the third (longer prefix, contained), but the
  third has precedence over the first: 2.0.0.0/16 does not contain 1.0.0.0, the position
  yields no decision, and the ip-protocol value decides. \<open>Equal\<close> is not transitive either:
  1.0.0.0/24 and 2.0.0.0/16 are \<open>Equal\<close>, 2.0.0.0/16 and 3.0.0.0/24 are \<open>Equal\<close>, and
  1.0.0.0/24 has precedence over 3.0.0.0/24.
\<close>

theorem CompareFlowSpecKey_not_transitive:
  "ascending_types (key2 (ParsePrefix4 0x01000000 24) [0x11]) \<and>
   ascending_types (key2 (ParsePrefix4 0x02000000 24) [0x06]) \<and>
   ascending_types (key2 (ParsePrefix4 0x02000000 16) [0x06]) \<and>
   CompareFlowSpecKey (key2 (ParsePrefix4 0x01000000 24) [0x11])
     (key2 (ParsePrefix4 0x02000000 24) [0x06]) = Inr AHasPrecedence \<and>
   CompareFlowSpecKey (key2 (ParsePrefix4 0x02000000 24) [0x06])
     (key2 (ParsePrefix4 0x02000000 16) [0x06]) = Inr AHasPrecedence \<and>
   CompareFlowSpecKey (key2 (ParsePrefix4 0x01000000 24) [0x11])
     (key2 (ParsePrefix4 0x02000000 16) [0x06]) = Inr BHasPrecedence \<and>
   ascending_types (key1 (ParsePrefix4 0x01000000 24)) \<and>
   ascending_types (key1 (ParsePrefix4 0x02000000 16)) \<and>
   ascending_types (key1 (ParsePrefix4 0x03000000 24)) \<and>
   CompareFlowSpecKey (key1 (ParsePrefix4 0x01000000 24)) (key1 (ParsePrefix4 0x02000000 16)) =
     Inr Equal \<and>
   CompareFlowSpecKey (key1 (ParsePrefix4 0x02000000 16)) (key1 (ParsePrefix4 0x03000000 24)) =
     Inr Equal \<and>
   CompareFlowSpecKey (key1 (ParsePrefix4 0x01000000 24)) (key1 (ParsePrefix4 0x03000000 24)) =
     Inr AHasPrecedence"
proof -
  have a2: "ascending_types (key2 p r)" for p r
    by (simp add: ascending_types_def key2_def ComponentTypeDestinationPrefix_def
        ComponentTypeIpProtocol_def)
  have a1: "ascending_types (key1 p)" for p
    by (simp add: ascending_types_def key1_def)
  have c1: "CompareFlowSpecKey (key2 (ParsePrefix4 0x01000000 24) [0x11])
     (key2 (ParsePrefix4 0x02000000 24) [0x06]) = Inr AHasPrecedence"
    by code_simp
  have c2: "CompareFlowSpecKey (key2 (ParsePrefix4 0x02000000 24) [0x06])
     (key2 (ParsePrefix4 0x02000000 16) [0x06]) = Inr AHasPrecedence"
    by code_simp
  have c3: "CompareFlowSpecKey (key2 (ParsePrefix4 0x01000000 24) [0x11])
     (key2 (ParsePrefix4 0x02000000 16) [0x06]) = Inr BHasPrecedence"
    by code_simp
  have e1: "CompareFlowSpecKey (key1 (ParsePrefix4 0x01000000 24)) (key1 (ParsePrefix4 0x02000000 16)) =
     Inr Equal"
    by code_simp
  have e2: "CompareFlowSpecKey (key1 (ParsePrefix4 0x02000000 16)) (key1 (ParsePrefix4 0x03000000 24)) =
     Inr Equal"
    by code_simp
  have e3: "CompareFlowSpecKey (key1 (ParsePrefix4 0x01000000 24)) (key1 (ParsePrefix4 0x03000000 24)) =
     Inr AHasPrecedence"
    by code_simp
  from a1 a2 c1 c2 c3 e1 e2 e3 show ?thesis by (intro conjI)
qed

section \<open>The insertion sort\<close>

lemma three_arrangements:
  assumes "mset ys = mset [a, b, c]"
  shows "ys = [a, b, c] \<or> ys = [a, c, b] \<or> ys = [b, a, c] \<or> ys = [b, c, a] \<or>
         ys = [c, a, b] \<or> ys = [c, b, a]"
proof -
  from assms have "length ys = 3"
    by (metis length_Cons list.size(3) numeral_3_eq_3 size_mset)
  then obtain x y z where ys: "ys = [x, y, z]"
    by (auto simp: numeral_3_eq_3 length_Suc_conv)
  from assms show ?thesis
    unfolding ys by (auto simp: add_eq_conv_ex)
qed

lemma cycle_has_no_order:
  assumes "mset ys = mset [a, b, c]"
    and "R a c" and "R b a" and "R c b"
  shows "\<exists>i j. i < j \<and> j < length ys \<and> R (ys ! i) (ys ! j)"
proof -
  from three_arrangements [OF assms(1)] consider
    "ys = [a, b, c]" | "ys = [a, c, b]" | "ys = [b, a, c]" | "ys = [b, c, a]" |
    "ys = [c, a, b]" | "ys = [c, b, a]" by blast
  then show ?thesis
  proof cases
    case 1
    with assms(2) have "0 < (2::nat) \<and> 2 < length ys \<and> R (ys ! 0) (ys ! 2)" by simp
    then show ?thesis by blast
  next
    case 2
    with assms(2) have "0 < (1::nat) \<and> 1 < length ys \<and> R (ys ! 0) (ys ! 1)" by simp
    then show ?thesis by blast
  next
    case 3
    with assms(3) have "0 < (1::nat) \<and> 1 < length ys \<and> R (ys ! 0) (ys ! 1)" by simp
    then show ?thesis by blast
  next
    case 4
    with assms(3) have "0 < (2::nat) \<and> 2 < length ys \<and> R (ys ! 0) (ys ! 2)" by simp
    then show ?thesis by blast
  next
    case 5
    with assms(4) have "0 < (2::nat) \<and> 2 < length ys \<and> R (ys ! 0) (ys ! 2)" by simp
    then show ?thesis by blast
  next
    case 6
    with assms(4) have "0 < (1::nat) \<and> 1 < length ys \<and> R (ys ! 0) (ys ! 1)" by simp
    then show ?thesis by blast
  qed
qed

lemma inner_mset:
  "j < length xs \<Longrightarrow> insertionSort_inner lessf xs a j = Inr ys \<Longrightarrow>
   mset ys = mset xs \<and> length ys = length xs"
proof (induction lessf xs a j arbitrary: ys rule: insertionSort_inner.induct)
  case (1 lessf xs a j)
  show ?case
  proof (cases "j > a")
    case False
    with 1(3) show ?thesis by (subst (asm) insertionSort_inner.simps) simp
  next
    case True
    show ?thesis
    proof (cases "lessf (xs ! j) (xs ! (j - 1))")
      case (Inl p)
      with True 1(3) show ?thesis by (subst (asm) insertionSort_inner.simps) simp
    next
      case (Inr t)
      show ?thesis
      proof (cases t)
        case False
        with True Inr 1(3) show ?thesis by (subst (asm) insertionSort_inner.simps) simp
      next
        case t: True
        let ?xs' = "xs[j := xs ! (j - 1), j - 1 := xs ! j]"
        from True Inr t 1(3) have r: "insertionSort_inner lessf ?xs' a (j - 1) = Inr ys"
          by (subst (asm) insertionSort_inner.simps) simp
        from 1(2) have "j - 1 < length ?xs'" by simp
        from t have tt: "t = True" by simp
        from 1(1) [OF True Inr tt \<open>j - 1 < length ?xs'\<close> r] have "mset ys = mset ?xs' \<and> length ys = length ?xs'" .
        moreover have "mset ?xs' = mset xs"
          using 1(2) by (simp add: mset_swap)
        ultimately show ?thesis by simp
      qed
    qed
  qed
qed

lemma outer_mset:
  "b \<le> length xs \<Longrightarrow> insertionSort_outer lessf xs a b i = Inr ys \<Longrightarrow>
   mset ys = mset xs \<and> length ys = length xs"
proof (induction lessf xs a b i arbitrary: ys rule: insertionSort_outer.induct)
  case (1 lessf xs a b i)
  show ?case
  proof (cases "i < b")
    case False
    with 1(3) show ?thesis by (subst (asm) insertionSort_outer.simps) simp
  next
    case True
    show ?thesis
    proof (cases "insertionSort_inner lessf xs a i")
      case (Inl p)
      with True 1(3) show ?thesis by (subst (asm) insertionSort_outer.simps) simp
    next
      case (Inr xs')
      from True 1(2) have "i < length xs" by simp
      from inner_mset [OF this Inr] have m: "mset xs' = mset xs \<and> length xs' = length xs" .
      from True Inr 1(3) have r: "insertionSort_outer lessf xs' a b (Suc i) = Inr ys"
        by (subst (asm) insertionSort_outer.simps) simp
      from m 1(2) have "b \<le> length xs'" by simp
      from 1(1) [OF True Inr this r] m show ?thesis by simp
    qed
  qed
qed

lemma inner_adjacent:
  assumes "a \<le> j" and "j \<le> i" and "i < length xs"
    and "\<forall>k. a < k \<and> k \<le> i \<and> k \<noteq> j \<longrightarrow> le_by lessf (xs ! (k - 1)) (xs ! k)"
    and "a < j \<and> j < i \<longrightarrow> le_by lessf (xs ! (j - 1)) (xs ! (j + 1))"
    and "insertionSort_inner lessf xs a j = Inr ys"
  shows "\<forall>k. a < k \<and> k \<le> i \<longrightarrow> le_by lessf (ys ! (k - 1)) (ys ! k)"
  using assms
proof (induction lessf xs a j arbitrary: ys rule: insertionSort_inner.induct)
  case (1 lessf xs a j)
  show ?case
  proof (cases "j > a")
    case False
    with 1(7) have "ys = xs" by (subst (asm) insertionSort_inner.simps) simp
    with False 1(2,5) show ?thesis by auto
  next
    case True
    show ?thesis
    proof (cases "lessf (xs ! j) (xs ! (j - 1))")
      case (Inl p)
      with True 1(7) show ?thesis by (subst (asm) insertionSort_inner.simps) simp
    next
      case (Inr t)
      show ?thesis
      proof (cases t)
        case False
        with True Inr 1(7) have "ys = xs" by (subst (asm) insertionSort_inner.simps) simp
        moreover from Inr False have "le_by lessf (xs ! (j - 1)) (xs ! j)"
          by (simp add: le_by_def)
        ultimately show ?thesis using 1(5) by metis
      next
        case t: True
        let ?xs' = "xs[j := xs ! (j - 1), j - 1 := xs ! j]"
        from True Inr t 1(7) have r: "insertionSort_inner lessf ?xs' a (j - 1) = Inr ys"
          by (subst (asm) insertionSort_inner.simps) simp
        have jl: "j < length xs" using 1(3,4) by simp
        have p1: "a \<le> j - 1" using True by simp
        have p2: "j - 1 \<le> i" using 1(3) by simp
        have p3: "i < length ?xs'" using 1(4) by simp
        have p4: "\<forall>k. a < k \<and> k \<le> i \<and> k \<noteq> j - 1 \<longrightarrow> le_by lessf (?xs' ! (k - 1)) (?xs' ! k)"
        proof (intro allI impI)
          fix k
          assume k: "a < k \<and> k \<le> i \<and> k \<noteq> j - 1"
          consider (same) "k = j" | (succ) "k = j + 1" | (below) "k < j - 1" | (above) "k > j + 1"
            using k by linarith
          then show "le_by lessf (?xs' ! (k - 1)) (?xs' ! k)"
          proof cases
            case same
            with True jl Inr t show ?thesis by (simp add: le_by_def)
          next
            case succ
            with k True 1(6) have "le_by lessf (xs ! (j - 1)) (xs ! (j + 1))" by simp
            with succ True jl 1(4) k show ?thesis by simp
          next
            case below
            with k 1(5) have "le_by lessf (xs ! (k - 1)) (xs ! k)" by simp
            with below show ?thesis by simp
          next
            case above
            with k 1(5) have "le_by lessf (xs ! (k - 1)) (xs ! k)" by simp
            with above show ?thesis by simp
          qed
        qed
        have p5: "a < j - 1 \<and> j - 1 < i \<longrightarrow> le_by lessf (?xs' ! (j - 1 - 1)) (?xs' ! (j - 1 + 1))"
        proof
          assume h: "a < j - 1 \<and> j - 1 < i"
          then have "a < j - 1 \<and> j - 1 \<le> i \<and> j - 1 \<noteq> j" by linarith
          with 1(5) have "le_by lessf (xs ! (j - 1 - 1)) (xs ! (j - 1))" by blast
          moreover from h have "j - 1 - 1 \<noteq> j - 1" "j - 1 - 1 \<noteq> j" "j - 1 + 1 = j"
            by linarith+
          ultimately show "le_by lessf (?xs' ! (j - 1 - 1)) (?xs' ! (j - 1 + 1))"
            using jl by simp
        qed
        from t have tt: "t = True" by simp
        from 1(1) [OF True Inr tt p1 p2 p3 p4 p5 r] show ?thesis .
      qed
    qed
  qed
qed

lemma outer_adjacent:
  assumes "b \<le> length xs" and "a < i"
    and "\<forall>k. a < k \<and> k < i \<longrightarrow> le_by lessf (xs ! (k - 1)) (xs ! k)"
    and "insertionSort_outer lessf xs a b i = Inr ys"
  shows "\<forall>k. a < k \<and> k < b \<longrightarrow> le_by lessf (ys ! (k - 1)) (ys ! k)"
  using assms
proof (induction lessf xs a b i arbitrary: ys rule: insertionSort_outer.induct)
  case (1 lessf xs a b i)
  show ?case
  proof (cases "i < b")
    case False
    with 1(5) have "ys = xs" by (subst (asm) insertionSort_outer.simps) simp
    with False 1(4) show ?thesis by auto
  next
    case True
    show ?thesis
    proof (cases "insertionSort_inner lessf xs a i")
      case (Inl p)
      with True 1(5) show ?thesis by (subst (asm) insertionSort_outer.simps) simp
    next
      case (Inr xs')
      from True 1(2) have il: "i < length xs" by simp
      from True Inr 1(5) have r: "insertionSort_outer lessf xs' a b (Suc i) = Inr ys"
        by (subst (asm) insertionSort_outer.simps) simp
      from inner_mset [OF il Inr] 1(2) have b': "b \<le> length xs'" by simp
      have q4: "\<forall>k. a < k \<and> k \<le> i \<and> k \<noteq> i \<longrightarrow> le_by lessf (xs ! (k - 1)) (xs ! k)"
        using 1(4) by auto
      have q5: "a < i \<and> i < i \<longrightarrow> le_by lessf (xs ! (i - 1)) (xs ! (i + 1))" by simp
      from 1(3) have q1: "a \<le> i" by simp
      have "\<forall>k. a < k \<and> k \<le> i \<longrightarrow> le_by lessf (xs' ! (k - 1)) (xs' ! k)"
        using inner_adjacent [OF q1 order_refl il q4 q5 Inr] .
      then have inv: "\<forall>k. a < k \<and> k < Suc i \<longrightarrow> le_by lessf (xs' ! (k - 1)) (xs' ! k)"
        by (simp add: less_Suc_eq_le)
      from 1(3) have "a < Suc i" by simp
      from 1(1) [OF True Inr b' this inv r] show ?thesis .
    qed
  qed
qed

lemma le_by_less_FlowSpecs:
  assumes "le_by less_FlowSpecs x y"
  shows "\<exists>r. CompareFlowSpecKey x y = Inr r \<and> r \<le> 0"
proof -
  from assms consider (lt) "less_FlowSpecs x y = Inr True" | (ge) "less_FlowSpecs y x = Inr False"
    by (auto simp: le_by_def)
  then show ?thesis
  proof cases
    case lt
    then show ?thesis
      by (cases "CompareFlowSpecKey x y") (auto simp: less_FlowSpecs_def)
  next
    case ge
    then obtain r where r: "CompareFlowSpecKey y x = Inr r" and "\<not> r < 0"
      by (cases "CompareFlowSpecKey y x") (auto simp: less_FlowSpecs_def)
    with CompareFlowSpecKey_swap [of x y] show ?thesis by simp
  qed
qed

text \<open>
  What \<^verbatim>\<open>SortFlowSpecs\<close> does establish on a slice of at most 12 lists, when no comparison
  panics: the slice is a permutation of the input, and of two neighbours the first has
  precedence over the second or is \<open>Equal\<close> to it.
\<close>

theorem SortFlowSpecs_adjacent:
  assumes "SortFlowSpecs list = Some (Inr out)"
  shows "mset out = mset list \<and>
         (\<forall>k. 0 < k \<and> k < length out \<longrightarrow>
            (\<exists>r. CompareFlowSpecKey (out ! (k - 1)) (out ! k) = Inr r \<and> r \<le> 0))"
proof -
  from assms have o: "insertionSort_outer less_FlowSpecs list 0 (length list) (0 + 1) = Inr out"
    by (simp add: SortFlowSpecs_def insertionSort_func_def split: if_splits)
  from outer_mset [OF order_refl o] have m: "mset out = mset list \<and> length out = length list" .
  have "\<forall>k. 0 < k \<and> k < 0 + 1 \<longrightarrow> le_by less_FlowSpecs (list ! (k - 1)) (list ! k)" by simp
  from outer_adjacent [OF order_refl _ this o]
  have "\<forall>k. 0 < k \<and> k < length list \<longrightarrow> le_by less_FlowSpecs (out ! (k - 1)) (out ! k)" by simp
  with m show ?thesis by (auto dest: le_by_less_FlowSpecs)
qed

text \<open>The slice of \<^verbatim>\<open>TestSortFlowSpecs\<close> and its result.\<close>

theorem SortFlowSpecs_adjacent_witness:
  "SortFlowSpecs
     [key1 (ParsePrefix4 0xC0000200 16), key1 (ParsePrefix4 0xC0000200 24),
      raw1 ComponentTypePort [0x11, 0x00, 0x16, 0x11, 0xFC, 0xE2, 0x91, 0x01, 0xBB],
      raw1 ComponentTypeIpProtocol [0x81, 0x04]] =
   Some (Inr
     [key1 (ParsePrefix4 0xC0000200 24), key1 (ParsePrefix4 0xC0000200 16),
      raw1 ComponentTypeIpProtocol [0x81, 0x04],
      raw1 ComponentTypePort [0x11, 0x00, 0x16, 0x11, 0xFC, 0xE2, 0x91, 0x01, 0xBB]]) \<and>
   (\<exists>r. CompareFlowSpecKey (key1 (ParsePrefix4 0xC0000200 24)) (key1 (ParsePrefix4 0xC0000200 16)) =
      Inr r \<and> r \<le> 0)"
proof -
  let ?in = "[key1 (ParsePrefix4 0xC0000200 16), key1 (ParsePrefix4 0xC0000200 24),
      raw1 ComponentTypePort [0x11, 0x00, 0x16, 0x11, 0xFC, 0xE2, 0x91, 0x01, 0xBB],
      raw1 ComponentTypeIpProtocol [0x81, 0x04]]"
  let ?out = "[key1 (ParsePrefix4 0xC0000200 24), key1 (ParsePrefix4 0xC0000200 16),
      raw1 ComponentTypeIpProtocol [0x81, 0x04],
      raw1 ComponentTypePort [0x11, 0x00, 0x16, 0x11, 0xFC, 0xE2, 0x91, 0x01, 0xBB]]"
  have s: "SortFlowSpecs ?in = Some (Inr ?out)"
    by code_simp
  from SortFlowSpecs_adjacent [OF s]
  have "0 < (1::nat) \<and> 1 < length ?out \<longrightarrow>
      (\<exists>r. CompareFlowSpecKey (?out ! (1 - 1)) (?out ! 1) = Inr r \<and> r \<le> 0)"
    by blast
  then have "\<exists>r. CompareFlowSpecKey (key1 (ParsePrefix4 0xC0000200 24))
      (key1 (ParsePrefix4 0xC0000200 16)) = Inr r \<and> r \<le> 0"
    by simp
  with s show ?thesis by (intro conjI)
qed

text \<open>
  Claim C5. \<^verbatim>\<open>SortFlowSpecs\<close> does not always leave the slice ordered from highest to
  lowest precedence. On the slice of the three lists of claim C1 it returns the slice as
  it was, and the last element has precedence over the first. No arrangement of the three
  lists is ordered: in each of them some element stands before one that has precedence
  over it.
\<close>

theorem SortFlowSpecs_not_ordered:
  "SortFlowSpecs
     [key2 (ParsePrefix4 0x01000000 24) [0x11], key2 (ParsePrefix4 0x02000000 24) [0x06],
      key2 (ParsePrefix4 0x02000000 16) [0x06]] =
   Some (Inr
     [key2 (ParsePrefix4 0x01000000 24) [0x11], key2 (ParsePrefix4 0x02000000 24) [0x06],
      key2 (ParsePrefix4 0x02000000 16) [0x06]]) \<and>
   CompareFlowSpecKey (key2 (ParsePrefix4 0x02000000 16) [0x06])
     (key2 (ParsePrefix4 0x01000000 24) [0x11]) = Inr AHasPrecedence \<and>
   (\<forall>ys. mset ys =
           mset [key2 (ParsePrefix4 0x01000000 24) [0x11], key2 (ParsePrefix4 0x02000000 24) [0x06],
                 key2 (ParsePrefix4 0x02000000 16) [0x06]] \<longrightarrow>
      (\<exists>i j. i < j \<and> j < length ys \<and> CompareFlowSpecKey (ys ! i) (ys ! j) = Inr BHasPrecedence))"
proof -
  let ?a = "key2 (ParsePrefix4 0x01000000 24) [0x11]"
  let ?b = "key2 (ParsePrefix4 0x02000000 24) [0x06]"
  let ?c = "key2 (ParsePrefix4 0x02000000 16) [0x06]"
  have s: "SortFlowSpecs [?a, ?b, ?c] = Some (Inr [?a, ?b, ?c])"
    by code_simp
  have c: "CompareFlowSpecKey ?c ?a = Inr AHasPrecedence"
    by code_simp
  have ac: "CompareFlowSpecKey ?a ?c = Inr BHasPrecedence"
    by code_simp
  have ba: "CompareFlowSpecKey ?b ?a = Inr BHasPrecedence"
    by code_simp
  have cb: "CompareFlowSpecKey ?c ?b = Inr BHasPrecedence"
    by code_simp
  have n: "\<forall>ys. mset ys = mset [?a, ?b, ?c] \<longrightarrow>
      (\<exists>i j. i < j \<and> j < length ys \<and> CompareFlowSpecKey (ys ! i) (ys ! j) = Inr BHasPrecedence)"
  proof (intro allI impI)
    fix ys
    assume "mset ys = mset [?a, ?b, ?c]"
    from cycle_has_no_order [where R = "\<lambda>x y. CompareFlowSpecKey x y = Inr BHasPrecedence",
        OF this ac ba cb]
    show "\<exists>i j. i < j \<and> j < length ys \<and> CompareFlowSpecKey (ys ! i) (ys ! j) = Inr BHasPrecedence" .
  qed
  from s c n show ?thesis by (intro conjI)
qed

text \<open>The arrangement with the third list first: it stands before the first list.\<close>

theorem SortFlowSpecs_not_ordered_witness:
  "\<exists>i j. i < j \<and>
     j < length [key2 (ParsePrefix4 0x02000000 16) [0x06], key2 (ParsePrefix4 0x01000000 24) [0x11],
                 key2 (ParsePrefix4 0x02000000 24) [0x06]] \<and>
     CompareFlowSpecKey
       ([key2 (ParsePrefix4 0x02000000 16) [0x06], key2 (ParsePrefix4 0x01000000 24) [0x11],
         key2 (ParsePrefix4 0x02000000 24) [0x06]] ! i)
       ([key2 (ParsePrefix4 0x02000000 16) [0x06], key2 (ParsePrefix4 0x01000000 24) [0x11],
         key2 (ParsePrefix4 0x02000000 24) [0x06]] ! j) = Inr BHasPrecedence"
proof -
  have "mset [key2 (ParsePrefix4 0x02000000 16) [0x06], key2 (ParsePrefix4 0x01000000 24) [0x11],
              key2 (ParsePrefix4 0x02000000 24) [0x06]] =
        mset [key2 (ParsePrefix4 0x01000000 24) [0x11], key2 (ParsePrefix4 0x02000000 24) [0x06],
              key2 (ParsePrefix4 0x02000000 16) [0x06]]"
    by simp
  with SortFlowSpecs_not_ordered show ?thesis by blast
qed

end
